theory Spec2Isabelle
  imports Main "HOL-Library.Multiset"
begin

section \<open>The parsed document\<close>

text \<open>
  The parser (package \<^verbatim>\<open>github.com/influxdata/toml\<close>) is an external collaborator. Of its
  syntax tree \<^verbatim>\<open>main.go\<close> reads three things: the name of a table, its line, and its
  fields. \<^verbatim>\<open>Fields\<close> is a Go map from a key to one of three dynamic types:
  \<^verbatim>\<open>*ast.Table\<close>, \<^verbatim>\<open>[]*ast.Table\<close> and \<^verbatim>\<open>*ast.KeyValue\<close>. A Go map is ranged over in
  an order the language leaves open; the association list below is the map in the order
  in which one run of \<^verbatim>\<open>range\<close> visits it. The value of a key/value pair is never
  inspected outside the debug printing and is left out.
\<close>

datatype field =
    TableF table
  | TablesF "table list"
  | KeyValueF string int
and table = Table (Name: string) (Line: int) (Fields: "(string \<times> field) list")

section \<open>Errors\<close>

text \<open>
  \<^verbatim>\<open>log.Fatalf\<close> prints its message and calls \<^verbatim>\<open>os.Exit(1)\<close>; \<^verbatim>\<open>panic\<close> unwinds the
  process as well, no \<^verbatim>\<open>recover\<close> being present. Each of them is a constructor here,
  carrying the data its message is formatted from.
\<close>

datatype error =
    OpeningFailed string                \<comment> \<open>\<^verbatim>\<open>Opening %q failed\<close>: file name\<close>
  | ParsingFailed string                \<comment> \<open>\<^verbatim>\<open>Parsing %q failed\<close>: file name\<close>
  | NotATable string                    \<comment> \<open>\<^verbatim>\<open>%q is not a table\<close>: field name\<close>
  | NotAListOfTables string string      \<comment> \<open>\<^verbatim>\<open>elements of "%s.%s" is not a list of tables\<close>\<close>
  | NoTOMLConfigurationFound            \<comment> \<open>\<^verbatim>\<open>no TOML configuration found\<close>\<close>
  | SplittingByLineFailed               \<comment> \<open>\<^verbatim>\<open>splitting by line failed\<close>: the scanner's error\<close>
  | MigrationFailed string int string   \<comment> \<open>\<^verbatim>\<open>migrating %q (line %d) failed: %v\<close>\<close>
  | IndexOutOfRange                     \<comment> \<open>runtime panic of an index expression\<close>
  | AlreadyRegistered string            \<comment> \<open>panic of \<^verbatim>\<open>AddPluginMigration\<close>\<close>

section \<open>The migration registry (migrations/registry.go)\<close>

text \<open>
  \<^verbatim>\<open>type PluginMigrationFunc func(*ast.Table) ([]byte, error)\<close>: the argument may be a nil
  pointer, the result is the error (its text) or the bytes.
\<close>

type_synonym PluginMigrationFunc = "table option \<Rightarrow> string + string"

type_synonym registry = "string \<rightharpoonup> PluginMigrationFunc"

definition AddPluginMigration ::
  "string \<Rightarrow> PluginMigrationFunc \<Rightarrow> registry \<Rightarrow> error + registry" where
  "AddPluginMigration n f PluginMigrations =
     (case PluginMigrations n of
        Some _ \<Rightarrow> Inl (AlreadyRegistered n)
      | None \<Rightarrow> Inr (PluginMigrations(n \<mapsto> f)))"

text \<open>
  The registry is filled by the \<^verbatim>\<open>init\<close> functions of the packages imported for their
  side effect; each calls \<^verbatim>\<open>AddPluginMigration\<close> once. A run of such calls stops at the
  first panic.
\<close>

fun register_all ::
  "(string \<times> PluginMigrationFunc) list \<Rightarrow> registry \<Rightarrow> error + registry" where
  "register_all [] reg = Inr reg"
| "register_all ((n, f) # rest) reg =
     (case AddPluginMigration n f reg of
        Inl e \<Rightarrow> Inl e
      | Inr reg' \<Rightarrow> register_all rest reg')"

section \<open>Sections and their text buffers\<close>

text \<open>
  The struct \<^verbatim>\<open>section\<close> is the record \<open>section_t\<close> and its field \<^verbatim>\<open>begin\<close> is
  \<open>begin_line\<close>, both names being keywords of the theory language.
  \<^verbatim>\<open>section.raw\<close> is a \<^verbatim>\<open>*bytes.Buffer\<close>: copies of a section share the buffer they point
  to. The buffers live in a store, a list indexed by address; \<^verbatim>\<open>&bytes.Buffer{}\<close> and
  \<^verbatim>\<open>bytes.NewBuffer\<close> allocate at the end of it. \<^verbatim>\<open>content\<close> is nil for the header.
  Line numbers are Go \<^verbatim>\<open>int\<close>s (64 bit); they are modelled as unbounded integers, since
  a line counter never reaches \<open>2^63\<close> and the parser's lines start at 1.
\<close>

type_synonym store = "string list"

record section_t =
  name :: string
  begin_line :: int
  content :: "table option"
  raw :: nat

definition NewBuffer :: "string \<Rightarrow> store \<Rightarrow> nat \<times> store" where
  "NewBuffer bytes h = (length h, h @ [bytes])"

section \<open>Section extraction: \<^verbatim>\<open>splitToSections\<close>\<close>

definition categories :: "string list" where
  "categories = [''inputs'', ''outputs'', ''processors'', ''aggregators'']"

text \<open>The loop \<^verbatim>\<open>for _, tbl := range tbls\<close>, appending one section per occurrence.\<close>

fun range_tbls :: "string \<Rightarrow> table list \<Rightarrow> section_t list \<Rightarrow> store \<Rightarrow> section_t list \<times> store" where
  "range_tbls cname [] sections h = (sections, h)"
| "range_tbls cname (tbl # tbls) sections h =
     (let (a, h') = NewBuffer [] h;
          s = \<lparr>name = cname @ ''.'' @ Name tbl, begin_line = Line tbl,
               content = Some tbl, raw = a\<rparr>
      in range_tbls cname tbls (sections @ [s]) h')"

text \<open>The loop \<^verbatim>\<open>for plugin, elements := range category.Fields\<close>.\<close>

fun range_category ::
  "string \<Rightarrow> (string \<times> field) list \<Rightarrow> section_t list \<Rightarrow> store \<Rightarrow> error + section_t list \<times> store" where
  "range_category cname [] sections h = Inr (sections, h)"
| "range_category cname ((plugin, elements) # rest) sections h =
     (case elements of
        TablesF tbls \<Rightarrow>
          (case range_tbls cname tbls sections h of
             (sections', h') \<Rightarrow> range_category cname rest sections' h')
      | _ \<Rightarrow> Inl (NotAListOfTables cname plugin))"

text \<open>The outer loop \<^verbatim>\<open>for name, elements := range root.Fields\<close> with its switch.\<close>

fun range_root ::
  "(string \<times> field) list \<Rightarrow> section_t list \<Rightarrow> store \<Rightarrow> error + section_t list \<times> store" where
  "range_root [] sections h = Inr (sections, h)"
| "range_root ((fname, elements) # rest) sections h =
     (if fname \<in> set categories then
        (case elements of
           TableF category \<Rightarrow>
             (case range_category fname (Fields category) sections h of
                Inl e \<Rightarrow> Inl e
              | Inr (sections', h') \<Rightarrow> range_root rest sections' h')
         | _ \<Rightarrow> Inl (NotATable fname))
      else
        (case elements of
           TableF tbl \<Rightarrow>
             (let (a, h') = NewBuffer [] h;
                  s = \<lparr>name = fname, begin_line = Line tbl, content = Some tbl, raw = a\<rparr>
              in range_root rest (sections @ [s]) h')
         | _ \<Rightarrow> Inl (NotATable fname)))"

text \<open>
  \<^verbatim>\<open>sort.SliceStable\<close> with the comparison \<^verbatim>\<open>sections[i].begin < sections[j].begin\<close>:
  the library documents it as sorting "while keeping the original order of equal
  elements". It is taken as the stable insertion sort on the key.
\<close>

definition SliceStable :: "('a \<Rightarrow> int) \<Rightarrow> 'a list \<Rightarrow> 'a list" where
  "SliceStable key xs = sort_key key xs"

definition splitToSections :: "table \<Rightarrow> store \<Rightarrow> error + section_t list \<times> store" where
  "splitToSections root h =
     (case range_root (Fields root) [] h of
        Inl e \<Rightarrow> Inl e
      | Inr (sections, h') \<Rightarrow> Inr (SliceStable begin_line sections, h'))"

section \<open>The line scanner and the string helpers of the standard library\<close>

text \<open>
  \<^verbatim>\<open>bufio.Scanner\<close> with its default split function \<^verbatim>\<open>bufio.ScanLines\<close>. The state of
  the scanner is the input not yet consumed. A call of \<^verbatim>\<open>Scan\<close> returns the next line
  without its terminator: the bytes up to the next line feed, or up to the end of the
  input for a last line that has none; one carriage return at the end of the line is
  dropped (\<^verbatim>\<open>dropCR\<close>). On an exhausted input it returns false and \<^verbatim>\<open>Err()\<close> is nil. A line
  that does not fit the buffer of \<^verbatim>\<open>bufio.MaxScanTokenSize\<close> bytes with its line feed makes
  \<^verbatim>\<open>Scan\<close> return false with \<^verbatim>\<open>Err() = bufio.ErrTooLong\<close>; lengths are Go \<^verbatim>\<open>int\<close>s. \<^verbatim>\<open>scanner.Text()\<close> and
  \<^verbatim>\<open>scanner.Bytes()\<close> are the same bytes.
\<close>

abbreviation LF :: char where "LF \<equiv> CHR 0x0A"

abbreviation CR :: char where "CR \<equiv> CHR 0x0D"

definition MaxScanTokenSize :: int where
  "MaxScanTokenSize = 64 * 1024"

definition dropCR :: "string \<Rightarrow> string" where
  "dropCR d = (if d \<noteq> [] \<and> last d = CR then butlast d else d)"

datatype scanned = Token string string | EOF | ErrTooLong

definition Scan :: "string \<Rightarrow> scanned" where
  "Scan scanner =
     (if scanner = [] then EOF
      else
        (let l = takeWhile (\<lambda>c. c \<noteq> LF) scanner in
         if MaxScanTokenSize \<le> int (length l) then ErrTooLong
         else Token (dropCR l) (drop (Suc (length l)) scanner)))"

text \<open>
  \<^verbatim>\<open>strings.TrimSpace\<close> removes the leading and the trailing white space "as defined by
  Unicode" (\<^verbatim>\<open>unicode.IsSpace\<close>) of a UTF-8 string. A byte sequence decodes to a white
  space rune exactly when it is that rune's encoding, so trimming matches the encodings
  below: the six ASCII characters, U+0085, U+00A0, U+1680, U+2000 to U+200A, U+2028,
  U+2029, U+202F, U+205F and U+3000.
\<close>

definition white_space :: "string list" where
  "white_space =
     [[CHR 0x09], [LF], [CHR 0x0B], [CHR 0x0C], [CR], [CHR 0x20],
      [CHR 0xC2, CHR 0x85], [CHR 0xC2, CHR 0xA0],
      [CHR 0xE1, CHR 0x9A, CHR 0x80],
      [CHR 0xE2, CHR 0x80, CHR 0x80], [CHR 0xE2, CHR 0x80, CHR 0x81],
      [CHR 0xE2, CHR 0x80, CHR 0x82], [CHR 0xE2, CHR 0x80, CHR 0x83],
      [CHR 0xE2, CHR 0x80, CHR 0x84], [CHR 0xE2, CHR 0x80, CHR 0x85],
      [CHR 0xE2, CHR 0x80, CHR 0x86], [CHR 0xE2, CHR 0x80, CHR 0x87],
      [CHR 0xE2, CHR 0x80, CHR 0x88], [CHR 0xE2, CHR 0x80, CHR 0x89],
      [CHR 0xE2, CHR 0x80, CHR 0x8A],
      [CHR 0xE2, CHR 0x80, CHR 0xA8], [CHR 0xE2, CHR 0x80, CHR 0xA9],
      [CHR 0xE2, CHR 0x80, CHR 0xAF],
      [CHR 0xE2, CHR 0x81, CHR 0x9F],
      [CHR 0xE3, CHR 0x80, CHR 0x80]]"

definition HasPrefix :: "string \<Rightarrow> string \<Rightarrow> bool" where
  "HasPrefix s pre = (take (length pre) s = pre)"

text \<open>The number of bytes of the white space rune that \<open>s\<close> starts with, 0 if there is none.\<close>

definition leading_space :: "string list \<Rightarrow> string \<Rightarrow> nat" where
  "leading_space spaces s =
     (case find (HasPrefix s) spaces of
        Some w \<Rightarrow> length w
      | None \<Rightarrow> 0)"

function TrimLeft :: "string list \<Rightarrow> string \<Rightarrow> string" where
  "TrimLeft spaces s =
     (if s = [] \<or> leading_space spaces s = 0 then s
      else TrimLeft spaces (drop (leading_space spaces s) s))"
  by pat_completeness auto
termination
  by (relation "measure (\<lambda>(spaces, s). length s)") auto

declare TrimLeft.simps [simp del]

text \<open>Trimming on the right looks for the same encodings at the end of the string.\<close>

definition TrimRight :: "string list \<Rightarrow> string \<Rightarrow> string" where
  "TrimRight spaces s = rev (TrimLeft (map rev spaces) (rev s))"

definition TrimSpace :: "string \<Rightarrow> string" where
  "TrimSpace s = TrimRight white_space (TrimLeft white_space s)"

section \<open>Raw text reconstruction: \<^verbatim>\<open>assignTextToSections\<close>\<close>

text \<open>
  The prepending of the header. The new slice is local to \<^verbatim>\<open>assignTextToSections\<close>: the
  caller's slice keeps its length and its elements.
\<close>

definition with_header :: "section_t list \<Rightarrow> store \<Rightarrow> section_t list \<times> store" where
  "with_header sections h =
     (if begin_line (hd sections) > 0 then
        (let (a, h') = NewBuffer [] h
         in (\<lparr>name = ''header'', begin_line = 0, content = None, raw = a\<rparr> # sections, h'))
      else (sections, h))"

text \<open>
  The inner loop \<^verbatim>\<open>for lineno < next.begin-1\<close>, for the bound \<open>limit = next.begin - 1\<close>.
  \<open>buf\<close> is the local buffer of pending comment lines, \<open>text\<close> the contents of
  \<^verbatim>\<open>sections[idx].raw\<close>. The loop is left by \<^verbatim>\<open>break\<close> when the scanner returns false;
  \<^verbatim>\<open>scanner.Err()\<close> is looked at right after the loop. \<^verbatim>\<open>io.Copy\<close> from a
  \<^verbatim>\<open>bytes.Buffer\<close> into a \<^verbatim>\<open>bytes.Buffer\<close> appends the whole source and returns no error.
\<close>

function scan_section ::
  "int \<Rightarrow> string \<Rightarrow> int \<Rightarrow> string \<Rightarrow> string \<Rightarrow> error + string \<times> int \<times> string \<times> string" where
  "scan_section limit scanner lineno buf text =
     (if lineno < limit then
        (case Scan scanner of
           EOF \<Rightarrow> Inr (scanner, lineno, buf, text)
         | ErrTooLong \<Rightarrow> Inl SplittingByLineFailed
         | Token tok scanner' \<Rightarrow>
             (let line = TrimSpace tok in
              if HasPrefix line ''#'' then
                scan_section limit scanner' (lineno + 1) (buf @ tok @ [LF]) text
              else if line = [] \<and> buf \<noteq> [] then
                scan_section limit scanner' (lineno + 1) [] (text @ buf @ tok @ [LF])
              else
                scan_section limit scanner' (lineno + 1) buf (text @ tok @ [LF])))
      else Inr (scanner, lineno, buf, text))"
  by pat_completeness auto
termination
  by (relation "measure (\<lambda>(limit, scanner, lineno, buf, text). nat (limit - lineno))") auto

declare scan_section.simps [simp del]

text \<open>
  The loop \<^verbatim>\<open>for idx, next := range sections[1:]\<close>: \<open>cur\<close> is \<^verbatim>\<open>sections[idx]\<close>, the list
  is \<^verbatim>\<open>sections[idx+1:]\<close>. The comment buffer is declared in the loop body and so starts
  empty for every section.
\<close>

fun range_sections ::
  "section_t \<Rightarrow> section_t list \<Rightarrow> string \<Rightarrow> int \<Rightarrow> store \<Rightarrow> error + string \<times> store" where
  "range_sections cur [] scanner lineno h = Inr (scanner, h)"
| "range_sections cur (nxt # rest) scanner lineno h =
     (case scan_section (begin_line nxt - 1) scanner lineno [] (h ! raw cur) of
        Inl e \<Rightarrow> Inl e
      | Inr (scanner', lineno', buf, text) \<Rightarrow>
          (let h1 = h[raw cur := text];
               h2 = (if buf \<noteq> [] then h1[raw nxt := h1 ! raw nxt @ buf] else h1)
           in range_sections nxt rest scanner' lineno' h2))"

text \<open>The last loop \<^verbatim>\<open>for scanner.Scan()\<close>, writing to the last section.\<close>

function write_remaining :: "string \<Rightarrow> string \<Rightarrow> error + string" where
  "write_remaining scanner text =
     (case Scan scanner of
        EOF \<Rightarrow> Inr text
      | ErrTooLong \<Rightarrow> Inl SplittingByLineFailed
      | Token tok scanner' \<Rightarrow> write_remaining scanner' (text @ tok @ [LF]))"
  by pat_completeness auto
termination
  by (relation "measure (\<lambda>(scanner, text). length scanner)")
     (auto simp: Scan_def Let_def split: if_splits)

declare write_remaining.simps [simp del]

text \<open>
  \<^verbatim>\<open>sections[0]\<close> on an empty slice is the runtime panic "index out of range". The
  function returns nothing: what the caller sees of it is the store.
\<close>

definition assignTextToSections :: "string \<Rightarrow> section_t list \<Rightarrow> store \<Rightarrow> error + store" where
  "assignTextToSections data sections h =
     (if sections = [] then Inl IndexOutOfRange
      else
        (case with_header sections h of
           (sections', h0) \<Rightarrow>
             (case range_sections (hd sections') (tl sections') data 0 h0 of
                Inl e \<Rightarrow> Inl e
              | Inr (scanner, h1) \<Rightarrow>
                  (case write_remaining scanner (h1 ! raw (last sections')) of
                     Inl e \<Rightarrow> Inl e
                   | Inr text \<Rightarrow> Inr (h1[raw (last sections') := text])))))"

section \<open>Dispatch and output: \<^verbatim>\<open>main\<close>\<close>

text \<open>
  The loop \<^verbatim>\<open>for idx, s := range sections\<close> of \<^verbatim>\<open>main\<close>. \<^verbatim>\<open>bytes.NewBuffer(result)\<close> is a
  new buffer; the section at \<open>idx\<close> is overwritten by the copy that points to it.
\<close>

fun migrate_sections ::
  "registry \<Rightarrow> section_t list \<Rightarrow> store \<Rightarrow> error + section_t list \<times> store" where
  "migrate_sections PluginMigrations [] h = Inr ([], h)"
| "migrate_sections PluginMigrations (s # rest) h =
     (case PluginMigrations (name s) of
        None \<Rightarrow>
          (case migrate_sections PluginMigrations rest h of
             Inl e \<Rightarrow> Inl e
           | Inr (rest', h') \<Rightarrow> Inr (s # rest', h'))
      | Some migrate \<Rightarrow>
          (case migrate (content s) of
             Inl err \<Rightarrow> Inl (MigrationFailed (name s) (begin_line s) err)
           | Inr result \<Rightarrow>
               (let (a, h1) = NewBuffer result h in
                case migrate_sections PluginMigrations rest h1 of
                  Inl e \<Rightarrow> Inl e
                | Inr (rest', h') \<Rightarrow> Inr (s\<lparr>raw := a\<rparr> # rest', h'))))"

text \<open>The bytes that the loop \<^verbatim>\<open>s.raw.WriteTo(file)\<close> writes.\<close>

definition written :: "store \<Rightarrow> section_t list \<Rightarrow> string" where
  "written h sections = concat (map (\<lambda>s. h ! raw s) sections)"

text \<open>
  The body of the loop over the files, from the parsed bytes to the bytes of the output
  file. \<open>parse\<close> is \<^verbatim>\<open>toml.Parse\<close>, \<open>None\<close> for its error. The buffers of a file are
  allocated afresh and nothing refers to those of an earlier file, so the store starts
  empty.
\<close>

definition migrate_file ::
  "registry \<Rightarrow> (string \<Rightarrow> table option) \<Rightarrow> string \<Rightarrow> string \<Rightarrow> error + string" where
  "migrate_file PluginMigrations parse filename data =
     (case parse data of
        None \<Rightarrow> Inl (ParsingFailed filename)
      | Some root \<Rightarrow>
          (case splitToSections root [] of
             Inl e \<Rightarrow> Inl e
           | Inr (sections, h) \<Rightarrow>
               if length sections = 0 then Inl NoTOMLConfigurationFound
               else
                 (case assignTextToSections data sections h of
                    Inl e \<Rightarrow> Inl e
                  | Inr h1 \<Rightarrow>
                      (case migrate_sections PluginMigrations sections h1 of
                         Inl e \<Rightarrow> Inl e
                       | Inr (sections', h2) \<Rightarrow> Inr (written h2 sections')))))"

text \<open>
  The loop \<^verbatim>\<open>for _, filename := range flag.Args()\<close>. The file system maps a name to the
  contents of the file; reading a missing file fails, and \<open>creatable\<close> tells whether
  \<^verbatim>\<open>os.OpenFile\<close> succeeds on an output name. The result is the file system when the process
  ends and the fatal error that ended it, if any. A failing write is not part of the
  model.
\<close>

fun main_loop ::
  "registry \<Rightarrow> (string \<Rightarrow> table option) \<Rightarrow> (string \<Rightarrow> bool) \<Rightarrow> string list \<Rightarrow>
   (string \<rightharpoonup> string) \<Rightarrow> (string \<rightharpoonup> string) \<times> error option" where
  "main_loop PluginMigrations parse creatable [] fs = (fs, None)"
| "main_loop PluginMigrations parse creatable (filename # rest) fs =
     (case fs filename of
        None \<Rightarrow> (fs, Some (OpeningFailed filename))
      | Some data \<Rightarrow>
          (case migrate_file PluginMigrations parse filename data of
             Inl e \<Rightarrow> (fs, Some e)
           | Inr out \<Rightarrow>
               (let outfn = filename @ ''.migrated'' in
                if creatable outfn then
                  main_loop PluginMigrations parse creatable rest (fs(outfn \<mapsto> out))
                else (fs, Some (OpeningFailed outfn)))))"

section \<open>Auxiliary notions for the properties\<close>

text \<open>
  What the dispatch loop does to one section: \<open>s\<close> before, \<open>s'\<close> after, \<open>h\<close> and \<open>h'\<close>
  the stores before and after the whole loop.
\<close>

definition dispatched :: "registry \<Rightarrow> store \<Rightarrow> store \<Rightarrow> section_t \<Rightarrow> section_t \<Rightarrow> bool" where
  "dispatched reg h h' s s' \<longleftrightarrow>
     name s' = name s \<and> begin_line s' = begin_line s \<and> content s' = content s \<and>
     (case reg (name s) of
        None \<Rightarrow> raw s' = raw s \<and> h' ! raw s' = h ! raw s
      | Some migrate \<Rightarrow> migrate (content s) = Inr (h' ! raw s'))"

text \<open>
  Lines as the scanner sees them. \<open>terminated ls\<close> is the text in which every line of
  \<open>ls\<close> is followed by one line feed. A line is \<open>scannable\<close> when it is one token for the
  scanner. The token of a line is a comment line when, trimmed, it starts with \<^verbatim>\<open>#\<close>, and
  a blank line when nothing is left of it after trimming: the two tests of the inner loop.
\<close>

definition terminated :: "string list \<Rightarrow> string" where
  "terminated ls = concat (map (\<lambda>l. l @ [LF]) ls)"

definition scannable :: "string \<Rightarrow> bool" where
  "scannable l \<longleftrightarrow> LF \<notin> set l \<and> int (length l) < MaxScanTokenSize"

definition is_comment :: "string \<Rightarrow> bool" where
  "is_comment tok \<longleftrightarrow> HasPrefix (TrimSpace tok) ''#''"

definition is_blank :: "string \<Rightarrow> bool" where
  "is_blank tok \<longleftrightarrow> TrimSpace tok = []"

text \<open>
  The effect of one iteration of the inner loop on the pending comments and on the text
  of the current section, as a function of the token; used to describe what the loop
  has done after a run of lines.
\<close>

fun feed_line :: "string \<Rightarrow> string \<times> string \<Rightarrow> string \<times> string" where
  "feed_line tok (buf, acc) =
     (if is_comment tok then (buf @ tok @ [LF], acc)
      else if is_blank tok \<and> buf \<noteq> [] then ([], acc @ buf @ tok @ [LF])
      else (buf, acc @ tok @ [LF]))"

text \<open>
  No line that is neither a comment nor blank comes directly after a comment line;
  \<open>pending\<close> tells whether a comment line precedes the first line of the list.
\<close>

fun settled :: "bool \<Rightarrow> string list \<Rightarrow> bool" where
  "settled pending [] = True"
| "settled pending (l # ls) =
     (if is_comment l then settled True ls
      else (pending \<longrightarrow> is_blank l) \<and> settled False ls)"

text \<open>
  The number of carriage returns in a text, and the number of those that are not
  directly followed by a line feed: the scanner drops the others.
\<close>

definition crs :: "string \<Rightarrow> nat" where
  "crs s = length (filter (\<lambda>c. c = CR) s)"

fun kept_crs :: "string \<Rightarrow> nat" where
  "kept_crs (a # b # s) = (if a = CR \<and> b \<noteq> LF then 1 else 0) + kept_crs (b # s)"
| "kept_crs [a] = (if a = CR then 1 else 0)"
| "kept_crs [] = 0"

text \<open>
  The tokens that successive calls of \<^verbatim>\<open>Scan\<close> return on an input, until it returns
  false.
\<close>

function tokens :: "string \<Rightarrow> string list" where
  "tokens scanner =
     (case Scan scanner of
        Token tok scanner' \<Rightarrow> tok # tokens scanner'
      | EOF \<Rightarrow> []
      | ErrTooLong \<Rightarrow> [])"
  by pat_completeness auto
termination
  by (relation "measure length") (auto simp: Scan_def Let_def split: if_splits)

declare tokens.simps [simp del]

text \<open>A text that is empty or ends with a line feed.\<close>

definition closed :: "string \<Rightarrow> bool" where
  "closed s \<longleftrightarrow> s = [] \<or> last s = LF"

text \<open>
  The shapes that \<^verbatim>\<open>splitToSections\<close> refuses: a top-level field that is not a table, and
  a category whose table has a child that is not a list of tables. And the sections on
  which the dispatch loop fails: those whose registered function returns an error.
\<close>

definition is_tables :: "field \<Rightarrow> bool" where
  "is_tables v = (case v of TablesF tbls \<Rightarrow> True | _ \<Rightarrow> False)"

fun malformed_field :: "string \<times> field \<Rightarrow> bool" where
  "malformed_field (fname, TableF tbl) =
     (fname \<in> set categories \<and> list_ex (\<lambda>(plugin, w). \<not> is_tables w) (Fields tbl))"
| "malformed_field (fname, TablesF tbls) = True"
| "malformed_field (fname, KeyValueF k l) = True"

definition malformed :: "table \<Rightarrow> bool" where
  "malformed root = list_ex malformed_field (Fields root)"

definition failing :: "registry \<Rightarrow> section_t \<Rightarrow> bool" where
  "failing reg s =
     (case reg (name s) of
        None \<Rightarrow> False
      | Some migrate \<Rightarrow> isl (migrate (content s)))"

section \<open>Example documents\<close>

text \<open>
  A configuration with a comment and a blank line in front of its only table:
  \<^verbatim>\<open># Telegraf Configuration\<close>, an empty line, \<^verbatim>\<open>[agent]\<close>, \<^verbatim>\<open>  debug = true\<close>; and its tree.
\<close>

definition agent_conf :: string where
  "agent_conf =
     ''# Telegraf Configuration'' @ [LF] @ [LF] @ ''[agent]'' @ [LF] @ ''  debug = true'' @ [LF]"

definition agent_root :: table where
  "agent_root =
     Table [] 0 [(''agent'', TableF (Table ''agent'' 3 [(''debug'', KeyValueF ''debug'' 4)]))]"

text \<open>
  A configuration with a comment between the header of a table and its key: \<^verbatim>\<open>[agent]\<close>,
  \<^verbatim>\<open>  # verbose logging\<close>, \<^verbatim>\<open>  debug = true\<close>, \<^verbatim>\<open>[[inputs.cpu]]\<close>.
\<close>

definition moved_conf :: string where
  "moved_conf =
     ''[agent]'' @ [LF] @ ''  # verbose logging'' @ [LF] @ ''  debug = true'' @ [LF] @
     ''[[inputs.cpu]]'' @ [LF]"

definition moved_root :: table where
  "moved_root =
     Table [] 0
       [(''agent'', TableF (Table ''agent'' 1 [(''debug'', KeyValueF ''debug'' 3)])),
        (''inputs'', TableF (Table ''inputs'' 4 [(''cpu'', TablesF [Table ''cpu'' 4 []])]))]"

text \<open>
  A configuration with a key outside of any table, \<^verbatim>\<open>debug = true\<close>, which the parser
  accepts and \<^verbatim>\<open>splitToSections\<close> does not.
\<close>

definition toplevel_conf :: string where
  "toplevel_conf = ''debug = true'' @ [LF]"

definition toplevel_root :: table where
  "toplevel_root = Table [] 0 [(''debug'', KeyValueF ''debug'' 1)]"

text \<open>
  A configuration with two \<^verbatim>\<open>[[inputs.cpu]]\<close> tables, in lines 3 and 5, between \<^verbatim>\<open>[agent]\<close>
  in line 1 and \<^verbatim>\<open>[[outputs.file]]\<close> in line 7; the fields of its tree are listed in an
  order that is not the order of the lines.
\<close>

definition cpu_conf :: string where
  "cpu_conf =
     ''[agent]'' @ [LF] @
     [LF] @
     ''[[inputs.cpu]]'' @ [LF] @
     ''  percpu = true'' @ [LF] @
     ''[[inputs.cpu]]'' @ [LF] @
     ''# to a file'' @ [LF] @
     ''[[outputs.file]]'' @ [LF]"

definition cpu_lines :: "string list" where
  "cpu_lines =
     [''[agent]'', [], ''[[inputs.cpu]]'', ''  percpu = true'', ''[[inputs.cpu]]'',
      ''# to a file'', ''[[outputs.file]]'']"

definition cpu_root :: table where
  "cpu_root =
     Table [] 0
       [(''outputs'', TableF (Table ''outputs'' 7 [(''file'', TablesF [Table ''file'' 7 []])])),
        (''agent'', TableF (Table ''agent'' 1 [])),
        (''inputs'', TableF (Table ''inputs'' 3
           [(''cpu'', TablesF [Table ''cpu'' 3 [(''percpu'', KeyValueF ''percpu'' 4)],
                               Table ''cpu'' 5 []])]))]"

text \<open>
  A configuration with no line feed at its end: \<^verbatim>\<open>[agent]\<close>, line feed,
  \<^verbatim>\<open>  debug = true\<close>; its tree.
\<close>

definition unterminated_conf :: string where
  "unterminated_conf = ''[agent]'' @ [LF] @ ''  debug = true''"

definition debug_root :: table where
  "debug_root =
     Table [] 0 [(''agent'', TableF (Table ''agent'' 1 [(''debug'', KeyValueF ''debug'' 2)]))]"

text \<open>
  A configuration with CRLF line endings and none after its last line: \<^verbatim>\<open># global\<close>,
  \<^verbatim>\<open>[agent]\<close>, \<^verbatim>\<open>  debug = true\<close>, \<^verbatim>\<open># end of agent\<close>, an empty line, \<^verbatim>\<open># cpu\<close>,
  \<^verbatim>\<open>[[inputs.cpu]]\<close>; its tree and its sections.
\<close>

definition dos_conf :: string where
  "dos_conf =
     ''# global'' @ [CR, LF] @
     ''[agent]'' @ [CR, LF] @
     ''  debug = true'' @ [CR, LF] @
     ''# end of agent'' @ [CR, LF] @
     [CR, LF] @
     ''# cpu'' @ [CR, LF] @
     ''[[inputs.cpu]]''"

definition dos_root :: table where
  "dos_root =
     Table [] 0
       [(''agent'', TableF (Table ''agent'' 2 [(''debug'', KeyValueF ''debug'' 3)])),
        (''inputs'', TableF (Table ''inputs'' 7 [(''cpu'', TablesF [Table ''cpu'' 7 []])]))]"

definition dos_sections :: "section_t list" where
  "dos_sections =
     [\<lparr>name = ''agent'', begin_line = 2,
        content = Some (Table ''agent'' 2 [(''debug'', KeyValueF ''debug'' 3)]), raw = 0\<rparr>,
      \<lparr>name = ''inputs.cpu'', begin_line = 7, content = Some (Table ''cpu'' 7 []), raw = 1\<rparr>]"

text \<open>
  The parser on the empty document and on the three documents above, a migration of
  \<^verbatim>\<open>inputs.cpu\<close> to a fixed text and one that fails.
\<close>

definition example_parse :: "string \<Rightarrow> table option" where
  "example_parse data =
     (if data = [] then Some (Table [] 0 [])
      else if data = agent_conf then Some agent_root
      else if data = toplevel_conf then Some toplevel_root
      else if data = cpu_conf then Some cpu_root
      else None)"

definition cpu_migration :: PluginMigrationFunc where
  "cpu_migration tbl = Inr (''[[inputs.cpu_v2]]'' @ [LF])"

definition example_registry :: registry where
  "example_registry = [''inputs.cpu'' \<mapsto> cpu_migration]"

text \<open>A migration of \<^verbatim>\<open>inputs.cpu\<close> whose text depends on the keys of the table.\<close>

definition percpu_migration :: PluginMigrationFunc where
  "percpu_migration tbl =
     (case tbl of
        None \<Rightarrow> Inl ''no table''
      | Some t \<Rightarrow>
          Inr (''[[inputs.cpu_v2]]'' @ [LF] @
               (if Fields t = [] then [] else ''  per_core = true'' @ [LF])))"

definition percpu_registry :: registry where
  "percpu_registry = [''inputs.cpu'' \<mapsto> percpu_migration]"

definition failing_registry :: registry where
  "failing_registry = [''inputs.cpu'' \<mapsto> (\<lambda>tbl. Inl ''unsupported option'')]"

text \<open>The sections of the third document, and their buffers after the reconstruction.\<close>

definition cpu_sections :: "section_t list" where
  "cpu_sections =
     [\<lparr>name = ''agent'', begin_line = 1, content = Some (Table ''agent'' 1 []), raw = 1\<rparr>,
      \<lparr>name = ''inputs.cpu'', begin_line = 3,
        content = Some (Table ''cpu'' 3 [(''percpu'', KeyValueF ''percpu'' 4)]), raw = 2\<rparr>,
      \<lparr>name = ''inputs.cpu'', begin_line = 5, content = Some (Table ''cpu'' 5 []), raw = 3\<rparr>,
      \<lparr>name = ''outputs.file'', begin_line = 7, content = Some (Table ''file'' 7 []), raw = 0\<rparr>]"

definition cpu_store :: store where
  "cpu_store =
     [''# to a file'' @ [LF] @ ''[[outputs.file]]'' @ [LF],
      ''[agent]'' @ [LF] @ [LF],
      ''[[inputs.cpu]]'' @ [LF] @ ''  percpu = true'' @ [LF],
      ''[[inputs.cpu]]'' @ [LF],
      []]"

text \<open>A file system with the three documents.\<close>

definition example_fs :: "string \<rightharpoonup> string" where
  "example_fs =
     [''cpu.conf'' \<mapsto> cpu_conf, ''top.conf'' \<mapsto> toplevel_conf, ''agent.conf'' \<mapsto> agent_conf]"

section \<open>Properties of the registry\<close>

lemma register_all_Inr:
  "register_all regs reg = Inr reg' \<Longrightarrow>
     distinct (map fst regs) \<and> (\<forall>n \<in> fst ` set regs. reg n = None) \<and>
     reg' = reg ++ map_of regs"
proof (induction regs arbitrary: reg)
  case Nil
  then show ?case by simp
next
  case (Cons p regs)
  obtain n f where p: "p = (n, f)" by (cases p)
  from Cons.prems p have none: "reg n = None"
    by (auto simp: AddPluginMigration_def split: option.splits)
  with Cons.prems p have rest: "register_all regs (reg(n \<mapsto> f)) = Inr reg'"
    by (simp add: AddPluginMigration_def)
  note ih = Cons.IH [OF rest]
  have d: "distinct (map fst regs)"
    by (rule ih [THEN conjunct1])
  have fresh: "\<forall>m \<in> fst ` set regs. (reg(n \<mapsto> f)) m = None"
    by (rule ih [THEN conjunct2, THEN conjunct1])
  have eq: "reg' = reg(n \<mapsto> f) ++ map_of regs"
    by (rule ih [THEN conjunct2, THEN conjunct2])
  from fresh have n_notin: "n \<notin> fst ` set regs" by auto
  have "reg(n \<mapsto> f) ++ map_of regs = (reg ++ map_of regs)(n \<mapsto> f)"
    using n_notin by (simp add: map_add_upd_left dom_map_of_conv_image_fst)
  also have "\<dots> = reg ++ map_of ((n, f) # regs)"
    by simp
  finally have "reg(n \<mapsto> f) ++ map_of regs = reg ++ map_of ((n, f) # regs)" .
  then have eq': "reg' = reg ++ map_of (p # regs)"
    using eq p by simp
  have fresh': "\<forall>m \<in> fst ` set (p # regs). reg m = None"
  proof
    fix m assume m: "m \<in> fst ` set (p # regs)"
    show "reg m = None"
    proof (cases "m = n")
      case True
      with none show ?thesis by simp
    next
      case False
      with m p have "m \<in> fst ` set regs" by auto
      with fresh have "(reg(n \<mapsto> f)) m = None" by (rule bspec)
      with False show ?thesis by simp
    qed
  qed
  from d n_notin p have "distinct (map fst (p # regs))" by simp
  with fresh' eq' show ?case by blast
qed

text \<open>
  Claim C6. \<^verbatim>\<open>AddPluginMigration\<close> panics when the name is already present and leaves the
  registry as it was (no new registry is returned); a successful run of registrations,
  started on the empty registry, registered pairwise distinct names, and the registry
  then maps every registered name to exactly the function it was registered with and
  knows no other name.
\<close>

theorem registry_at_most_one_match:
  "(reg n = Some g \<longrightarrow> AddPluginMigration n f reg = Inl (AlreadyRegistered n)) \<and>
   (register_all regs Map.empty = Inr reg' \<longrightarrow>
      distinct (map fst regs) \<and> reg' = map_of regs \<and>
      (\<forall>(m, k) \<in> set regs. reg' m = Some k))"
proof (intro conjI impI)
  assume "reg n = Some g"
  then show "AddPluginMigration n f reg = Inl (AlreadyRegistered n)"
    by (simp add: AddPluginMigration_def)
next
  assume ok: "register_all regs Map.empty = Inr reg'"
  from register_all_Inr [OF ok] show "distinct (map fst regs)" by simp
next
  assume ok: "register_all regs Map.empty = Inr reg'"
  from register_all_Inr [OF ok] show "reg' = map_of regs" by simp
next
  assume ok: "register_all regs Map.empty = Inr reg'"
  from register_all_Inr [OF ok] have "distinct (map fst regs)" "reg' = map_of regs"
    by simp_all
  then show "\<forall>(m, k) \<in> set regs. reg' m = Some k"
    by auto
qed

theorem registry_at_most_one_match_witness:
  "[''inputs.cpu'' \<mapsto> (\<lambda>_. Inr ''old'')] ''inputs.cpu'' = Some (\<lambda>_. Inr ''old'') \<and>
   AddPluginMigration ''inputs.cpu'' (\<lambda>_. Inr ''new'') [''inputs.cpu'' \<mapsto> (\<lambda>_. Inr ''old'')]
     = Inl (AlreadyRegistered ''inputs.cpu'') \<and>
   register_all [(''inputs.cpu'', \<lambda>_. Inr ''old''), (''inputs.disk'', \<lambda>_. Inl ''failed'')] Map.empty
     = Inr [''inputs.cpu'' \<mapsto> (\<lambda>_. Inr ''old''), ''inputs.disk'' \<mapsto> (\<lambda>_. Inl ''failed'')] \<and>
   distinct (map fst [(''inputs.cpu'', \<lambda>_::table option. (Inr ''old'' :: string + string)),
                      (''inputs.disk'', \<lambda>_. Inl ''failed'')])"
  using registry_at_most_one_match
    [of "[''inputs.cpu'' \<mapsto> (\<lambda>_. Inr ''old'')]" "''inputs.cpu''" "\<lambda>_. Inr ''old''"
        "\<lambda>_. Inr ''new''"
        "[(''inputs.cpu'', \<lambda>_. Inr ''old''), (''inputs.disk'', \<lambda>_. Inl ''failed'')]"
        "[''inputs.cpu'' \<mapsto> (\<lambda>_. Inr ''old''), ''inputs.disk'' \<mapsto> (\<lambda>_. Inl ''failed'')]"]
  by (simp add: AddPluginMigration_def)

section \<open>Properties of the dispatch loop\<close>

lemma migrate_sections_extends:
  "migrate_sections reg ss h = Inr (ss', h') \<Longrightarrow> \<exists>ext. h' = h @ ext"
proof (induction ss arbitrary: h ss' h')
  case Nil
  then show ?case by simp
next
  case (Cons s ss)
  show ?case
  proof (cases "reg (name s)")
    case None
    with Cons.prems obtain rest' where "migrate_sections reg ss h = Inr (rest', h')"
      by (auto split: sum.splits)
    then show ?thesis by (rule Cons.IH)
  next
    case (Some f)
    with Cons.prems obtain result rest' where
      "migrate_sections reg ss (h @ [result]) = Inr (rest', h')"
      by (auto simp: NewBuffer_def split: sum.splits)
    then have "\<exists>ext. h' = (h @ [result]) @ ext" by (rule Cons.IH)
    then show ?thesis by auto
  qed
qed

lemma migrate_sections_dispatched:
  "migrate_sections reg ss h = Inr (ss', h') \<Longrightarrow> \<forall>s \<in> set ss. raw s < length h \<Longrightarrow>
   list_all2 (dispatched reg h h') ss ss'"
proof (induction ss arbitrary: h ss' h')
  case Nil
  then show ?case by simp
next
  case (Cons s ss)
  from Cons.prems have s_valid: "raw s < length h" by simp
  show ?case
  proof (cases "reg (name s)")
    case None
    with Cons.prems obtain rest' where
      rest: "migrate_sections reg ss h = Inr (rest', h')" and ss': "ss' = s # rest'"
      by (auto split: sum.splits)
    from Cons.prems have valid: "\<forall>s \<in> set ss. raw s < length h" by simp
    note ih = Cons.IH [OF rest valid]
    from migrate_sections_extends [OF rest] obtain ext where ext: "h' = h @ ext" ..
    with s_valid have "h' ! raw s = h ! raw s" by (simp add: nth_append)
    with None have "dispatched reg h h' s s" by (simp add: dispatched_def)
    with ih ss' show ?thesis by simp
  next
    case (Some f)
    with Cons.prems obtain result rest' where
      res: "f (content s) = Inr result" and
      rest: "migrate_sections reg ss (h @ [result]) = Inr (rest', h')" and
      ss': "ss' = s\<lparr>raw := length h\<rparr> # rest'"
      by (auto simp: NewBuffer_def split: sum.splits)
    from Cons.prems have valid: "\<forall>s \<in> set ss. raw s < length (h @ [result])" by auto
    note ih = Cons.IH [OF rest valid]
    from migrate_sections_extends [OF rest] obtain ext where ext: "h' = (h @ [result]) @ ext" ..
    then have "h' ! length h = result" by (simp add: nth_append)
    with Some res have head: "dispatched reg h h' s (s\<lparr>raw := length h\<rparr>)"
      by (simp add: dispatched_def)
    have "list_all2 (dispatched reg h h') ss rest'"
    proof (rule list.rel_mono_strong [OF ih])
      fix t t' assume t: "t \<in> set ss" and d: "dispatched reg (h @ [result]) h' t t'"
      from t Cons.prems(2) have "raw t < length h" by simp
      then have "(h @ [result]) ! raw t = h ! raw t" by (simp add: nth_append)
      with d show "dispatched reg h h' t t'"
        by (auto simp: dispatched_def split: option.splits)
    qed
    with head ss' show ?thesis by simp
  qed
qed

text \<open>
  Claim C5. When the dispatch loop ends without a fatal error, on sections whose buffers
  exist in the store, it keeps the number of sections and the name, the line and the
  content of each; the buffer of a section whose name is not in the registry holds what
  it held before the loop, and the buffer of a section whose name is registered holds
  exactly the bytes that the registered function returned on the section's content.
\<close>

theorem dispatch_frame:
  assumes "migrate_sections reg ss h = Inr (ss', h')"
    and "\<forall>s \<in> set ss. raw s < length h"
  shows "length ss' = length ss \<and>
    (\<forall>i < length ss.
       name (ss' ! i) = name (ss ! i) \<and>
       begin_line (ss' ! i) = begin_line (ss ! i) \<and>
       content (ss' ! i) = content (ss ! i) \<and>
       (reg (name (ss ! i)) = None \<longrightarrow> h' ! raw (ss' ! i) = h ! raw (ss ! i)) \<and>
       (\<forall>migrate. reg (name (ss ! i)) = Some migrate \<longrightarrow>
          migrate (content (ss ! i)) = Inr (h' ! raw (ss' ! i))))"
proof -
  from migrate_sections_dispatched [OF assms]
  have all: "list_all2 (dispatched reg h h') ss ss'" .
  then have len: "length ss' = length ss"
    by (simp add: list_all2_lengthD)
  have "\<forall>i < length ss.
       name (ss' ! i) = name (ss ! i) \<and>
       begin_line (ss' ! i) = begin_line (ss ! i) \<and>
       content (ss' ! i) = content (ss ! i) \<and>
       (reg (name (ss ! i)) = None \<longrightarrow> h' ! raw (ss' ! i) = h ! raw (ss ! i)) \<and>
       (\<forall>migrate. reg (name (ss ! i)) = Some migrate \<longrightarrow>
          migrate (content (ss ! i)) = Inr (h' ! raw (ss' ! i)))"
  proof (intro allI impI)
    fix i assume "i < length ss"
    with all have "dispatched reg h h' (ss ! i) (ss' ! i)"
      by (simp add: list_all2_nthD)
    then show "name (ss' ! i) = name (ss ! i) \<and>
       begin_line (ss' ! i) = begin_line (ss ! i) \<and>
       content (ss' ! i) = content (ss ! i) \<and>
       (reg (name (ss ! i)) = None \<longrightarrow> h' ! raw (ss' ! i) = h ! raw (ss ! i)) \<and>
       (\<forall>migrate. reg (name (ss ! i)) = Some migrate \<longrightarrow>
          migrate (content (ss ! i)) = Inr (h' ! raw (ss' ! i)))"
      by (auto simp: dispatched_def)
  qed
  with len show ?thesis by (rule conjI)
qed

section \<open>Properties of the extraction\<close>

text \<open>
  Claim C7. The list that \<^verbatim>\<open>splitToSections\<close> returns is sorted by \<open>begin\<close> in ascending
  order, and the sort is stable: the result has the sections that the loops found, and
  for every line number the sections with that \<open>begin\<close> are in the order in which they
  were found.
\<close>

theorem extraction_ordering:
  assumes "splitToSections root h = Inr (ss, h')"
  shows "sorted (map begin_line ss) \<and>
    (\<exists>found. range_root (Fields root) [] h = Inr (found, h') \<and>
       mset ss = mset found \<and>
       (\<forall>k. filter (\<lambda>s. begin_line s = k) ss = filter (\<lambda>s. begin_line s = k) found))"
proof -
  from assms obtain found where
    found: "range_root (Fields root) [] h = Inr (found, h')" and
    ss: "ss = sort_key begin_line found"
    by (auto simp: splitToSections_def SliceStable_def split: sum.splits)
  have "sorted (map begin_line ss)"
    unfolding ss by (rule sorted_sort_key)
  moreover have "mset ss = mset found"
    unfolding ss by simp
  moreover have "filter (\<lambda>s. begin_line s = k) ss = filter (\<lambda>s. begin_line s = k) found" for k
    unfolding ss by (rule sort_key_stable)
  ultimately show ?thesis
    using found by blast
qed

section \<open>Which errors the stages can raise\<close>

lemma scan_section_error:
  "scan_section limit scanner lineno buf acc = Inl e \<Longrightarrow> e = SplittingByLineFailed"
proof (induction limit scanner lineno buf acc rule: scan_section.induct)
  case (1 limit scanner lineno buf acc)
  show ?case
  proof (cases "lineno < limit")
    case False
    with "1.prems" show ?thesis by (simp add: scan_section.simps)
  next
    case True
    show ?thesis
    proof (cases "Scan scanner")
      case EOF
      with True "1.prems" show ?thesis by (simp add: scan_section.simps)
    next
      case ErrTooLong
      with True "1.prems" show ?thesis by (simp add: scan_section.simps)
    next
      case (Token tok scanner')
      show ?thesis
      proof (cases "HasPrefix (TrimSpace tok) ''#''")
        case c: True
        from "1.prems" True Token c
        have "scan_section limit scanner' (lineno + 1) (buf @ tok @ [LF]) acc = Inl e"
          by (simp add: scan_section.simps [of limit scanner])
        with "1.IH"(1) [OF True Token refl c] show ?thesis by simp
      next
        case c: False
        show ?thesis
        proof (cases "TrimSpace tok = [] \<and> buf \<noteq> []")
          case b: True
          from "1.prems" True Token c b
          have "scan_section limit scanner' (lineno + 1) [] (acc @ buf @ tok @ [LF]) = Inl e"
            by (simp add: scan_section.simps [of limit scanner])
          with "1.IH"(2) [OF True Token refl c b] show ?thesis by simp
        next
          case b: False
          from "1.prems" True Token c b
          have "scan_section limit scanner' (lineno + 1) buf (acc @ tok @ [LF]) = Inl e"
            by (auto simp add: scan_section.simps [of limit scanner])
          with "1.IH"(3) [OF True Token refl c b] show ?thesis by simp
        qed
      qed
    qed
  qed
qed

lemma write_remaining_error:
  "write_remaining scanner acc = Inl e \<Longrightarrow> e = SplittingByLineFailed"
proof (induction scanner acc rule: write_remaining.induct)
  case (1 scanner acc)
  then show ?case
    by (cases "Scan scanner") (simp_all add: write_remaining.simps [of scanner])
qed

lemma range_sections_error:
  "range_sections cur rest scanner lineno h = Inl e \<Longrightarrow> e = SplittingByLineFailed"
proof (induction rest arbitrary: cur scanner lineno h)
  case Nil
  then show ?case by simp
next
  case (Cons nxt rest)
  show ?case
  proof (cases "scan_section (begin_line nxt - 1) scanner lineno [] (h ! raw cur)")
    case (Inl e')
    with Cons.prems have "e = e'" by simp
    with scan_section_error [OF Inl] show ?thesis by simp
  next
    case (Inr r)
    obtain scanner' lineno' buf acc where r: "r = (scanner', lineno', buf, acc)"
      by (cases r)
    from Cons.prems Inr r show ?thesis
      by (auto simp: Let_def dest: Cons.IH split: if_splits)
  qed
qed

lemma assignTextToSections_error:
  "assignTextToSections data ss h = Inl e \<Longrightarrow>
     (ss = [] \<and> e = IndexOutOfRange) \<or> (ss \<noteq> [] \<and> e = SplittingByLineFailed)"
  by (auto simp: assignTextToSections_def split: if_splits prod.splits sum.splits
      dest: range_sections_error write_remaining_error)


lemma range_category_error:
  "range_category cname fs secs h = Inl e \<Longrightarrow>
     \<exists>plugin v. (plugin, v) \<in> set fs \<and> (\<forall>tbls. v \<noteq> TablesF tbls) \<and>
       e = NotAListOfTables cname plugin"
proof (induction fs arbitrary: secs h)
  case Nil
  then show ?case by simp
next
  case (Cons f fs)
  obtain plugin v where f: "f = (plugin, v)" by (cases f)
  show ?case
  proof (cases v)
    case (TablesF tbls)
    obtain secs' h' where "range_tbls cname tbls secs h = (secs', h')"
      by (cases "range_tbls cname tbls secs h")
    with Cons.prems f TablesF have "range_category cname fs secs' h' = Inl e" by simp
    from Cons.IH [OF this] show ?thesis by auto
  next
    case (TableF t)
    with Cons.prems f show ?thesis by auto
  next
    case (KeyValueF k l)
    with Cons.prems f show ?thesis by auto
  qed
qed

lemma range_root_error:
  "range_root fs secs h = Inl e \<Longrightarrow>
     (\<exists>fname v. (fname, v) \<in> set fs \<and> (\<forall>tbl. v \<noteq> TableF tbl) \<and> e = NotATable fname) \<or>
     (\<exists>cname category plugin v.
        (cname, TableF category) \<in> set fs \<and> cname \<in> set categories \<and>
        (plugin, v) \<in> set (Fields category) \<and> (\<forall>tbls. v \<noteq> TablesF tbls) \<and>
        e = NotAListOfTables cname plugin)"
proof (induction fs arbitrary: secs h)
  case Nil
  then show ?case by simp
next
  case (Cons f fs)
  obtain fname v where f: "f = (fname, v)" by (cases f)
  show ?case
  proof (cases v)
    case (TableF tbl)
    show ?thesis
    proof (cases "fname \<in> set categories")
      case True
      show ?thesis
      proof (cases "range_category fname (Fields tbl) secs h")
        case (Inl e')
        with Cons.prems f TableF True have "e = e'" by simp
        with range_category_error [OF Inl] f TableF True show ?thesis
          by fastforce
      next
        case (Inr r)
        obtain secs' h' where "r = (secs', h')" by (cases r)
        with Cons.prems f TableF True Inr have "range_root fs secs' h' = Inl e" by simp
        from Cons.IH [OF this] show ?thesis by (elim disjE exE conjE) (simp; blast)+
      qed
    next
      case False
      with Cons.prems f TableF obtain secs' h' where "range_root fs secs' h' = Inl e"
        by (simp add: NewBuffer_def)
      from Cons.IH [OF this] show ?thesis by (elim disjE exE conjE) (simp; blast)+
    qed
  next
    case (TablesF tbls)
    with Cons.prems f have "e = NotATable fname" by (simp split: if_splits)
    with f TablesF show ?thesis by auto
  next
    case (KeyValueF k l)
    with Cons.prems f have "e = NotATable fname" by (simp split: if_splits)
    with f KeyValueF show ?thesis by auto
  qed
qed

lemma splitToSections_error:
  "splitToSections root h = Inl e \<Longrightarrow>
     (\<exists>fname v. (fname, v) \<in> set (Fields root) \<and> (\<forall>tbl. v \<noteq> TableF tbl) \<and>
        e = NotATable fname) \<or>
     (\<exists>cname category plugin v.
        (cname, TableF category) \<in> set (Fields root) \<and> cname \<in> set categories \<and>
        (plugin, v) \<in> set (Fields category) \<and> (\<forall>tbls. v \<noteq> TablesF tbls) \<and>
        e = NotAListOfTables cname plugin)"
proof -
  assume "splitToSections root h = Inl e"
  then have "range_root (Fields root) [] h = Inl e"
    by (simp add: splitToSections_def split: sum.splits prod.splits)
  then show ?thesis by (rule range_root_error)
qed

lemma migrate_sections_error:
  "migrate_sections reg ss h = Inl e \<Longrightarrow>
     \<exists>s \<in> set ss. \<exists>migrate err. reg (name s) = Some migrate \<and>
       migrate (content s) = Inl err \<and> e = MigrationFailed (name s) (begin_line s) err"
proof (induction ss arbitrary: h)
  case Nil
  then show ?case by simp
next
  case (Cons s ss)
  show ?case
  proof (cases "reg (name s)")
    case None
    with Cons.prems have "migrate_sections reg ss h = Inl e"
      by (simp split: sum.splits prod.splits)
    from Cons.IH [OF this] show ?thesis by auto
  next
    case (Some migrate)
    show ?thesis
    proof (cases "migrate (content s)")
      case (Inl err)
      with Cons.prems Some show ?thesis by auto
    next
      case (Inr result)
      with Cons.prems Some have "migrate_sections reg ss (h @ [result]) = Inl e"
        by (simp add: NewBuffer_def split: sum.splits prod.splits)
      from Cons.IH [OF this] show ?thesis by auto
    qed
  qed
qed

lemma main_loop_append:
  "main_loop reg parse creatable pre fs = (fs', None) \<Longrightarrow>
   main_loop reg parse creatable (pre @ post) fs = main_loop reg parse creatable post fs'"
proof (induction pre arbitrary: fs)
  case Nil
  then show ?case by simp
next
  case (Cons f pre)
  then show ?case
    by (auto simp: Let_def split: option.splits sum.splits if_splits)
qed

lemma range_category_fails_iff:
  "(\<exists>e. range_category cname fs secs h = Inl e) \<longleftrightarrow> list_ex (\<lambda>(plugin, w). \<not> is_tables w) fs"
proof (induction fs arbitrary: secs h)
  case Nil
  then show ?case by simp
next
  case (Cons f fs)
  obtain plugin v where f: "f = (plugin, v)" by (cases f)
  show ?case
  proof (cases v)
    case (TablesF tbls)
    obtain s1 h1 where t: "range_tbls cname tbls secs h = (s1, h1)"
      by (cases "range_tbls cname tbls secs h")
    with f TablesF have "range_category cname (f # fs) secs h = range_category cname fs s1 h1"
      by simp
    with Cons.IH [of s1 h1] f TablesF show ?thesis by (simp add: is_tables_def)
  next
    case (TableF t)
    with f show ?thesis by (simp add: is_tables_def)
  next
    case (KeyValueF k l)
    with f show ?thesis by (simp add: is_tables_def)
  qed
qed

lemma range_root_fails_iff:
  "(\<exists>e. range_root fs secs h = Inl e) \<longleftrightarrow> list_ex malformed_field fs"
proof (induction fs arbitrary: secs h)
  case Nil
  then show ?case by simp
next
  case (Cons f fs)
  obtain fname v where f: "f = (fname, v)" by (cases f)
  show ?case
  proof (cases v)
    case (TableF tbl)
    show ?thesis
    proof (cases "fname \<in> set categories")
      case True
      show ?thesis
      proof (cases "range_category fname (Fields tbl) secs h")
        case (Inl e)
        with range_category_fails_iff [of fname "Fields tbl" secs h]
        have "list_ex (\<lambda>(plugin, w). \<not> is_tables w) (Fields tbl)" by simp
        with Inl f TableF True show ?thesis by simp
      next
        case (Inr r)
        obtain s1 h1 where r: "r = (s1, h1)" by (cases r)
        from Inr range_category_fails_iff [of fname "Fields tbl" secs h]
        have "\<not> list_ex (\<lambda>(plugin, w). \<not> is_tables w) (Fields tbl)" by simp
        with Inr r f TableF True Cons.IH [of s1 h1] show ?thesis by simp
      qed
    next
      case False
      with f TableF Cons.IH [of _ "h @ [[]]"] show ?thesis
        by (simp add: NewBuffer_def)
    qed
  next
    case (TablesF tbls)
    with f show ?thesis by simp
  next
    case (KeyValueF k l)
    with f show ?thesis by simp
  qed
qed

lemma splitToSections_fails_iff:
  "(\<exists>e. splitToSections root h = Inl e) \<longleftrightarrow> malformed root"
proof -
  have "(\<exists>e. splitToSections root h = Inl e) \<longleftrightarrow> (\<exists>e. range_root (Fields root) [] h = Inl e)"
    by (cases "range_root (Fields root) [] h") (auto simp: splitToSections_def)
  then show ?thesis
    by (simp add: range_root_fails_iff malformed_def)
qed

lemma migrate_sections_fails_iff:
  "(\<exists>e. migrate_sections reg ss h = Inl e) \<longleftrightarrow> list_ex (failing reg) ss"
proof (induction ss arbitrary: h)
  case Nil
  then show ?case by simp
next
  case (Cons s ss)
  show ?case
  proof (cases "reg (name s)")
    case None
    then have "(\<exists>e. migrate_sections reg (s # ss) h = Inl e) \<longleftrightarrow>
        (\<exists>e. migrate_sections reg ss h = Inl e)"
      by (cases "migrate_sections reg ss h") auto
    with None Cons.IH [of h] show ?thesis by (simp add: failing_def)
  next
    case (Some migrate)
    show ?thesis
    proof (cases "migrate (content s)")
      case (Inl err)
      with Some show ?thesis by (simp add: failing_def)
    next
      case (Inr result)
      with Some have "(\<exists>e. migrate_sections reg (s # ss) h = Inl e) \<longleftrightarrow>
          (\<exists>e. migrate_sections reg ss (h @ [result]) = Inl e)"
        by (cases "migrate_sections reg ss (h @ [result])") (auto simp: NewBuffer_def)
      with Some Inr Cons.IH [of "h @ [result]"] show ?thesis by (simp add: failing_def)
    qed
  qed
qed


text \<open>
  Claim C4, as amended. A malformed field and a failing migration are fatal to the whole
  run, not to the current file only. \<^verbatim>\<open>splitToSections\<close> fails exactly on a malformed
  document, and its error names a top-level field that is not a table, or the category
  and the key of a child that is not a list of tables (the message has no line). The
  dispatch loop fails exactly when the registered function of some section returns an
  error, and its error carries the name and the line of such a section. When the files
  before \<open>filename\<close> were processed without error and the processing of \<open>filename\<close> fails,
  the run ends with that error: the file system is as the earlier files left it,
  whatever files follow. So it ends when the document of \<open>filename\<close> is malformed, and
  when it is reconstructed and the migration of one of its sections fails.
\<close>

theorem fatal_error_ends_run:
  "(splitToSections root h = Inl e \<longrightarrow>
      (\<exists>fname v. (fname, v) \<in> set (Fields root) \<and> (\<forall>tbl. v \<noteq> TableF tbl) \<and>
         e = NotATable fname) \<or>
      (\<exists>cname category plugin v.
         (cname, TableF category) \<in> set (Fields root) \<and> cname \<in> set categories \<and>
         (plugin, v) \<in> set (Fields category) \<and> (\<forall>tbls. v \<noteq> TablesF tbls) \<and>
         e = NotAListOfTables cname plugin)) \<and>
   (migrate_sections reg1 ss h1 = Inl e1 \<longrightarrow>
      (\<exists>s \<in> set ss. \<exists>migrate err. reg1 (name s) = Some migrate \<and>
         migrate (content s) = Inl err \<and>
         e1 = MigrationFailed (name s) (begin_line s) err)) \<and>
   (main_loop reg parse creatable pre fs = (fs', None) \<and> fs' filename = Some data \<and>
    migrate_file reg parse filename data = Inl e2 \<longrightarrow>
      main_loop reg parse creatable (pre @ filename # rest) fs = (fs', Some e2)) \<and>
   (malformed root \<longleftrightarrow> (\<exists>e'. splitToSections root h = Inl e')) \<and>
   (list_ex (failing reg1) ss \<longleftrightarrow> (\<exists>e'. migrate_sections reg1 ss h1 = Inl e')) \<and>
   (main_loop reg parse creatable pre fs = (fs', None) \<and> fs' filename = Some data \<and>
    parse data = Some root2 \<and> malformed root2 \<longrightarrow>
      (\<exists>e'. splitToSections root2 [] = Inl e' \<and>
         main_loop reg parse creatable (pre @ filename # rest) fs = (fs', Some e'))) \<and>
   (main_loop reg parse creatable pre fs = (fs', None) \<and> fs' filename = Some data \<and>
    parse data = Some root3 \<and> splitToSections root3 [] = Inr (ss3, h3) \<and>
    assignTextToSections data ss3 h3 = Inr h4 \<and> list_ex (failing reg) ss3 \<longrightarrow>
      (\<exists>e'. migrate_sections reg ss3 h4 = Inl e' \<and>
         main_loop reg parse creatable (pre @ filename # rest) fs = (fs', Some e')))"
proof (intro conjI impI)
  assume "splitToSections root h = Inl e"
  then show "(\<exists>fname v. (fname, v) \<in> set (Fields root) \<and> (\<forall>tbl. v \<noteq> TableF tbl) \<and>
         e = NotATable fname) \<or>
      (\<exists>cname category plugin v.
         (cname, TableF category) \<in> set (Fields root) \<and> cname \<in> set categories \<and>
         (plugin, v) \<in> set (Fields category) \<and> (\<forall>tbls. v \<noteq> TablesF tbls) \<and>
         e = NotAListOfTables cname plugin)"
    by (rule splitToSections_error)
next
  assume "migrate_sections reg1 ss h1 = Inl e1"
  then show "\<exists>s \<in> set ss. \<exists>migrate err. reg1 (name s) = Some migrate \<and>
         migrate (content s) = Inl err \<and>
         e1 = MigrationFailed (name s) (begin_line s) err"
    by (rule migrate_sections_error)
next
  assume a: "main_loop reg parse creatable pre fs = (fs', None) \<and> fs' filename = Some data \<and>
    migrate_file reg parse filename data = Inl e2"
  then have "main_loop reg parse creatable (pre @ filename # rest) fs =
      main_loop reg parse creatable (filename # rest) fs'"
    by (simp add: main_loop_append)
  with a show "main_loop reg parse creatable (pre @ filename # rest) fs = (fs', Some e2)"
    by simp
next
  show "malformed root \<longleftrightarrow> (\<exists>e'. splitToSections root h = Inl e')"
    by (simp add: splitToSections_fails_iff)
next
  show "list_ex (failing reg1) ss \<longleftrightarrow> (\<exists>e'. migrate_sections reg1 ss h1 = Inl e')"
    by (simp add: migrate_sections_fails_iff)
next
  assume a: "main_loop reg parse creatable pre fs = (fs', None) \<and> fs' filename = Some data \<and>
    parse data = Some root2 \<and> malformed root2"
  then obtain e' where e': "splitToSections root2 [] = Inl e'"
    using splitToSections_fails_iff [of root2 "[]"] by blast
  with a have failed: "migrate_file reg parse filename data = Inl e'"
    by (simp add: migrate_file_def)
  from a have "main_loop reg parse creatable (pre @ filename # rest) fs =
      main_loop reg parse creatable (filename # rest) fs'"
    by (simp add: main_loop_append)
  with a failed have "main_loop reg parse creatable (pre @ filename # rest) fs = (fs', Some e')"
    by simp
  with e' show "\<exists>e'. splitToSections root2 [] = Inl e' \<and>
      main_loop reg parse creatable (pre @ filename # rest) fs = (fs', Some e')"
    by blast
next
  assume a: "main_loop reg parse creatable pre fs = (fs', None) \<and> fs' filename = Some data \<and>
    parse data = Some root3 \<and> splitToSections root3 [] = Inr (ss3, h3) \<and>
    assignTextToSections data ss3 h3 = Inr h4 \<and> list_ex (failing reg) ss3"
  then obtain e' where e': "migrate_sections reg ss3 h4 = Inl e'"
    using migrate_sections_fails_iff [of reg ss3 h4] by blast
  from a have "ss3 \<noteq> []" by auto
  with a e' have failed: "migrate_file reg parse filename data = Inl e'"
    by (simp add: migrate_file_def)
  from a have "main_loop reg parse creatable (pre @ filename # rest) fs =
      main_loop reg parse creatable (filename # rest) fs'"
    by (simp add: main_loop_append)
  with a failed have "main_loop reg parse creatable (pre @ filename # rest) fs = (fs', Some e')"
    by simp
  with e' show "\<exists>e'. migrate_sections reg ss3 h4 = Inl e' \<and>
      main_loop reg parse creatable (pre @ filename # rest) fs = (fs', Some e')"
    by blast
qed

text \<open>
  Claim C10. \<^verbatim>\<open>assignTextToSections\<close> panics on \<^verbatim>\<open>sections[0]\<close> exactly for the empty list;
  the processing of a file never ends in that panic; and when \<^verbatim>\<open>splitToSections\<close> returns
  the empty list, the file is aborted with "no TOML configuration found".
\<close>

theorem nonempty_precondition:
  "(assignTextToSections data ss h = Inl IndexOutOfRange \<longleftrightarrow> ss = []) \<and>
   migrate_file reg parse filename data' \<noteq> Inl IndexOutOfRange \<and>
   (parse data' = Some root \<and> splitToSections root [] = Inr ([], h') \<longrightarrow>
      migrate_file reg parse filename data' = Inl NoTOMLConfigurationFound)"
proof (intro conjI impI)
  show "assignTextToSections data ss h = Inl IndexOutOfRange \<longleftrightarrow> ss = []"
  proof
    assume "assignTextToSections data ss h = Inl IndexOutOfRange"
    from assignTextToSections_error [OF this] show "ss = []" by simp
  next
    assume "ss = []"
    then show "assignTextToSections data ss h = Inl IndexOutOfRange"
      by (simp add: assignTextToSections_def)
  qed
next
  show "migrate_file reg parse filename data' \<noteq> Inl IndexOutOfRange"
  proof
    assume bad: "migrate_file reg parse filename data' = Inl IndexOutOfRange"
    then obtain root where root: "parse data' = Some root"
      by (auto simp: migrate_file_def split: option.splits)
    show False
    proof (cases "splitToSections root []")
      case (Inl e)
      with bad root have "e = IndexOutOfRange" by (simp add: migrate_file_def)
      with splitToSections_error [OF Inl] show False by auto
    next
      case (Inr r)
      obtain sections h0 where r: "r = (sections, h0)" by (cases r)
      show False
      proof (cases "sections = []")
        case True
        with bad root Inr r show False by (simp add: migrate_file_def)
      next
        case False
        show False
        proof (cases "assignTextToSections data' sections h0")
          case (Inl e)
          with bad root Inr r False have "e = IndexOutOfRange" by (simp add: migrate_file_def)
          with assignTextToSections_error [OF Inl] False show False by simp
        next
          case assigned: (Inr h1)
          show False
          proof (cases "migrate_sections reg sections h1")
            case (Inl e)
            with bad root Inr r False assigned have "e = IndexOutOfRange"
              by (simp add: migrate_file_def)
            with migrate_sections_error [OF Inl] show False by auto
          next
            case migrated: (Inr r')
            with bad root Inr r False assigned show False
              by (simp add: migrate_file_def split: prod.splits)
          qed
        qed
      qed
    qed
  qed
next
  assume "parse data' = Some root \<and> splitToSections root [] = Inr ([], h')"
  then show "migrate_file reg parse filename data' = Inl NoTOMLConfigurationFound"
    by (simp add: migrate_file_def)
qed

section \<open>The properties on the example documents\<close>

theorem extraction_ordering_witness:
  "splitToSections cpu_root [] = Inr (cpu_sections, [[], [], [], []]) \<and>
   sorted (map begin_line cpu_sections) \<and>
   map begin_line cpu_sections = [1, 3, 5, 7]"
proof -
  have split: "splitToSections cpu_root [] = Inr (cpu_sections, [[], [], [], []])"
    by code_simp
  from extraction_ordering [OF split] have "sorted (map begin_line cpu_sections)"
    by (rule conjunct1)
  moreover have "map begin_line cpu_sections = [1, 3, 5, 7]"
    by (simp add: cpu_sections_def)
  ultimately show ?thesis using split by simp
qed

theorem dispatch_frame_witness:
  "map raw cpu_sections = [1, 2, 3, 0] \<and> length cpu_store = 5 \<and>
   migrate_sections example_registry cpu_sections cpu_store =
     Inr (cpu_sections [1 := (cpu_sections ! 1)\<lparr>raw := 5\<rparr>, 2 := (cpu_sections ! 2)\<lparr>raw := 6\<rparr>],
          cpu_store @ [''[[inputs.cpu_v2]]'' @ [LF], ''[[inputs.cpu_v2]]'' @ [LF]]) \<and>
   (cpu_store @ [''[[inputs.cpu_v2]]'' @ [LF], ''[[inputs.cpu_v2]]'' @ [LF]]) ! 1 = cpu_store ! 1 \<and>
   cpu_migration (content (cpu_sections ! 1)) =
     Inr ((cpu_store @ [''[[inputs.cpu_v2]]'' @ [LF], ''[[inputs.cpu_v2]]'' @ [LF]]) ! 5)"
proof -
  let ?ss' = "cpu_sections [1 := (cpu_sections ! 1)\<lparr>raw := 5\<rparr>, 2 := (cpu_sections ! 2)\<lparr>raw := 6\<rparr>]"
  let ?h' = "cpu_store @ [''[[inputs.cpu_v2]]'' @ [LF], ''[[inputs.cpu_v2]]'' @ [LF]]"
  have valid: "\<forall>s \<in> set cpu_sections. raw s < length cpu_store"
    by (simp add: cpu_sections_def cpu_store_def)
  have run: "migrate_sections example_registry cpu_sections cpu_store = Inr (?ss', ?h')"
    by code_simp
  note frame = dispatch_frame [OF run valid, THEN conjunct2, rule_format]
  have "example_registry (name (cpu_sections ! 0)) = None"
    by (simp add: example_registry_def cpu_sections_def)
  with frame [of 0] have "?h' ! raw (?ss' ! 0) = cpu_store ! raw (cpu_sections ! 0)"
    by (simp add: cpu_sections_def)
  then have a: "?h' ! 1 = cpu_store ! 1"
    by (simp add: cpu_sections_def)
  have "example_registry (name (cpu_sections ! 1)) = Some cpu_migration"
    by (simp add: example_registry_def cpu_sections_def)
  with frame [of 1] have "cpu_migration (content (cpu_sections ! 1)) = Inr (?h' ! raw (?ss' ! 1))"
    by (simp add: cpu_sections_def)
  then have b: "cpu_migration (content (cpu_sections ! 1)) = Inr (?h' ! 5)"
    by (simp add: cpu_sections_def)
  have "map raw cpu_sections = [1, 2, 3, 0]" "length cpu_store = 5"
    by (simp_all add: cpu_sections_def cpu_store_def)
  with run a b show ?thesis by blast
qed

theorem nonempty_precondition_witness:
  "example_parse [] = Some (Table [] 0 []) \<and>
   splitToSections (Table [] 0 []) [] = Inr ([], []) \<and>
   migrate_file example_registry example_parse ''empty.conf'' [] = Inl NoTOMLConfigurationFound"
proof -
  have hyp: "example_parse [] = Some (Table [] 0 []) \<and>
      splitToSections (Table [] 0 []) [] = Inr ([], [])"
    by (simp add: example_parse_def splitToSections_def SliceStable_def)
  from nonempty_precondition [of _ _ _ example_registry example_parse "''empty.conf''" "[]"
      "Table [] 0 []" "[]", THEN conjunct2, THEN conjunct2, rule_format, OF hyp]
  have "migrate_file example_registry example_parse ''empty.conf'' [] = Inl NoTOMLConfigurationFound" .
  with hyp show ?thesis by simp
qed

text \<open>
  Claim C2, on the first example document. The header that \<^verbatim>\<open>assignTextToSections\<close>
  prepends is an element of its own slice only: \<^verbatim>\<open>main\<close> writes the buffers of the
  sections it got from \<^verbatim>\<open>splitToSections\<close>, and the comment and the blank line in front
  of \<^verbatim>\<open>[agent]\<close> are not in the output.
\<close>

theorem header_lost:
  "migrate_file Map.empty example_parse ''agent.conf'' agent_conf =
     Inr (''[agent]'' @ [LF] @ ''  debug = true'' @ [LF])"
  by code_simp

text \<open>The three documents, processed with the example registry.\<close>

lemma agent_out: "migrate_file example_registry example_parse ''agent.conf'' agent_conf =
     Inr (''[agent]'' @ [LF] @ ''  debug = true'' @ [LF])"
  by code_simp

lemma cpu_out: "migrate_file example_registry example_parse ''cpu.conf'' cpu_conf =
     Inr (''[agent]'' @ [LF] @ [LF] @ ''[[inputs.cpu_v2]]'' @ [LF] @ ''[[inputs.cpu_v2]]'' @ [LF] @
          ''# to a file'' @ [LF] @ ''[[outputs.file]]'' @ [LF])"
  by code_simp

lemma top_out: "migrate_file example_registry example_parse ''top.conf'' toplevel_conf =
     Inl (NotATable ''debug'')"
  by code_simp

text \<open>
  Claim C4 as stated fails: with the malformed \<^verbatim>\<open>top.conf\<close> in front of it,
  \<^verbatim>\<open>agent.conf\<close> is not processed and its output file does not exist when the process
  ends, although the file alone is processed without error.
\<close>

theorem fatal_error_ends_run_counterexample:
  "main_loop example_registry example_parse (\<lambda>outfn. True) [''top.conf'', ''agent.conf''] example_fs
     = (example_fs, Some (NotATable ''debug'')) \<and>
   example_fs ''agent.conf.migrated'' = None \<and>
   main_loop example_registry example_parse (\<lambda>outfn. True) [''agent.conf''] example_fs
     = (example_fs(''agent.conf.migrated'' \<mapsto> ''[agent]'' @ [LF] @ ''  debug = true'' @ [LF]), None)"
proof -
  have top: "example_fs ''top.conf'' = Some toplevel_conf"
    by (simp add: example_fs_def)
  have agent: "example_fs ''agent.conf'' = Some agent_conf"
    by (simp add: example_fs_def)
  have none: "example_fs ''agent.conf.migrated'' = None"
    by (simp add: example_fs_def)
  have "main_loop example_registry example_parse (\<lambda>outfn. True) [''top.conf'', ''agent.conf'']
      example_fs = (example_fs, Some (NotATable ''debug''))"
    by (simp add: top top_out)
  moreover have "main_loop example_registry example_parse (\<lambda>outfn. True) [''agent.conf'']
      example_fs
      = (example_fs(''agent.conf.migrated'' \<mapsto> ''[agent]'' @ [LF] @ ''  debug = true'' @ [LF]), None)"
    by (simp add: agent agent_out)
  ultimately show ?thesis using none by simp
qed

theorem fatal_error_ends_run_witness:
  "malformed toplevel_root \<and>
   splitToSections toplevel_root [] = Inl (NotATable ''debug'') \<and>
   (''debug'', KeyValueF ''debug'' 1) \<in> set (Fields toplevel_root) \<and>
   list_ex (failing failing_registry) cpu_sections \<and>
   migrate_sections failing_registry cpu_sections cpu_store
     = Inl (MigrationFailed ''inputs.cpu'' 3 ''unsupported option'') \<and>
   main_loop example_registry example_parse (\<lambda>outfn. True) [''cpu.conf''] example_fs
     = (example_fs(''cpu.conf.migrated'' \<mapsto>
          ''[agent]'' @ [LF] @ [LF] @ ''[[inputs.cpu_v2]]'' @ [LF] @ ''[[inputs.cpu_v2]]'' @ [LF] @
          ''# to a file'' @ [LF] @ ''[[outputs.file]]'' @ [LF]), None) \<and>
   main_loop example_registry example_parse (\<lambda>outfn. True)
       ([''cpu.conf''] @ ''top.conf'' # [''agent.conf'']) example_fs
     = (example_fs(''cpu.conf.migrated'' \<mapsto>
          ''[agent]'' @ [LF] @ [LF] @ ''[[inputs.cpu_v2]]'' @ [LF] @ ''[[inputs.cpu_v2]]'' @ [LF] @
          ''# to a file'' @ [LF] @ ''[[outputs.file]]'' @ [LF]), Some (NotATable ''debug'')) \<and>
   main_loop failing_registry example_parse (\<lambda>outfn. True)
       ([] @ ''cpu.conf'' # [''agent.conf'']) example_fs
     = (example_fs, Some (MigrationFailed ''inputs.cpu'' 3 ''unsupported option''))"
proof -
  let ?fs' = "example_fs(''cpu.conf.migrated'' \<mapsto>
          ''[agent]'' @ [LF] @ [LF] @ ''[[inputs.cpu_v2]]'' @ [LF] @ ''[[inputs.cpu_v2]]'' @ [LF] @
          ''# to a file'' @ [LF] @ ''[[outputs.file]]'' @ [LF])"
  have bad: "malformed toplevel_root"
    by code_simp
  have split: "splitToSections toplevel_root [] = Inl (NotATable ''debug'')"
    by code_simp
  have field: "(''debug'', KeyValueF ''debug'' 1) \<in> set (Fields toplevel_root)"
    by (simp add: toplevel_root_def)
  have fails: "list_ex (failing failing_registry) cpu_sections"
    by (simp add: failing_def failing_registry_def cpu_sections_def)
  have migrate: "migrate_sections failing_registry cpu_sections cpu_store
      = Inl (MigrationFailed ''inputs.cpu'' 3 ''unsupported option'')"
    by code_simp
  have cpu: "example_fs ''cpu.conf'' = Some cpu_conf"
    by (simp add: example_fs_def)
  have pre: "main_loop example_registry example_parse (\<lambda>outfn. True) [''cpu.conf''] example_fs
      = (?fs', None)"
    by (simp add: cpu cpu_out)
  have top: "?fs' ''top.conf'' = Some toplevel_conf"
    by (simp add: example_fs_def)
  have parse_top: "example_parse toplevel_conf = Some toplevel_root"
    by code_simp
  note first = fatal_error_ends_run [where root = toplevel_root and h = "[]"
      and e = "NotATable ''debug''"
      and ?reg1.0 = failing_registry and ss = cpu_sections and ?h1.0 = cpu_store
      and ?e1.0 = "MigrationFailed ''inputs.cpu'' 3 ''unsupported option''"
      and reg = example_registry and parse = example_parse and creatable = "\<lambda>outfn. True"
      and pre = "[''cpu.conf'']" and fs = example_fs and fs' = ?fs'
      and filename = "''top.conf''" and data = toplevel_conf and ?e2.0 = "NotATable ''debug''"
      and rest = "[''agent.conf'']" and ?root2.0 = toplevel_root]
  from first pre top parse_top bad split
  have one: "main_loop example_registry example_parse (\<lambda>outfn. True)
       ([''cpu.conf''] @ ''top.conf'' # [''agent.conf'']) example_fs
     = (?fs', Some (NotATable ''debug''))"
    by auto
  have empty: "main_loop failing_registry example_parse (\<lambda>outfn. True) [] example_fs
      = (example_fs, None)"
    by simp
  have parse_cpu: "example_parse cpu_conf = Some cpu_root"
    by code_simp
  have split_cpu: "splitToSections cpu_root [] = Inr (cpu_sections, [[], [], [], []])"
    by code_simp
  have assign_cpu: "assignTextToSections cpu_conf cpu_sections [[], [], [], []] = Inr cpu_store"
    by code_simp
  note second = fatal_error_ends_run [where reg = failing_registry and parse = example_parse
      and creatable = "\<lambda>outfn. True" and pre = "[]" and fs = example_fs and fs' = example_fs
      and filename = "''cpu.conf''" and data = cpu_conf and rest = "[''agent.conf'']"
      and ?root3.0 = cpu_root and ?ss3.0 = cpu_sections and ?h3.0 = "[[], [], [], []]"
      and ?h4.0 = cpu_store]
  from second empty cpu parse_cpu split_cpu assign_cpu fails migrate
  have two: "main_loop failing_registry example_parse (\<lambda>outfn. True)
       ([] @ ''cpu.conf'' # [''agent.conf'']) example_fs
     = (example_fs, Some (MigrationFailed ''inputs.cpu'' 3 ''unsupported option''))"
    by auto
  from bad split field fails migrate pre one two show ?thesis by blast
qed

subsection \<open>Allocation of the buffers\<close>

lemma range_tbls_alloc:
  "range_tbls cname tbls secs h = (secs', h') \<Longrightarrow>
     h' = h @ replicate (length tbls) [] \<and>
     map raw secs' = map raw secs @ [length h ..< length h + length tbls]"
proof (induction tbls arbitrary: secs h)
  case Nil
  then show ?case by simp
next
  case (Cons t ts)
  let ?s = "\<lparr>name = cname @ ''.'' @ Name t, begin_line = Line t, content = Some t,
    raw = length h\<rparr>"
  from Cons.prems have "range_tbls cname ts (secs @ [?s]) (h @ [[]]) = (secs', h')"
    by (simp add: NewBuffer_def)
  from Cons.IH [OF this] have
    h': "h' = (h @ [[]]) @ replicate (length ts) []" and
    raws: "map raw secs' = map raw (secs @ [?s]) @ [length (h @ [[]]) ..< length (h @ [[]]) + length ts]"
    by simp_all
  have "length h < length h + length (t # ts)" by simp
  from upt_conv_Cons [OF this]
  have "[length h ..< length h + length (t # ts)] = length h # [Suc (length h) ..< Suc (length h) + length ts]"
    by simp
  with raws have "map raw secs' = map raw secs @ [length h ..< length h + length (t # ts)]"
    by simp
  moreover from h' have "h' = h @ replicate (length (t # ts)) []"
    by (simp add: replicate_app_Cons_same)
  ultimately show ?case by simp
qed

lemma alloc_trans:
  assumes "h1 = h @ replicate n []" "map raw s1 = map raw s0 @ [length h ..< length h + n]"
    and "h2 = h1 @ replicate m []" "map raw s2 = map raw s1 @ [length h1 ..< length h1 + m]"
  shows "h2 = h @ replicate (n + m) [] \<and> map raw s2 = map raw s0 @ [length h ..< length h + (n + m)]"
proof -
  have "length h \<le> length h + n" by simp
  from upt_add_eq_append [OF this, of m]
  have "[length h ..< length h + (n + m)] = [length h ..< length h + n] @ [length h + n ..< length h + n + m]"
    by (simp only: add.assoc)
  moreover from assms(1) have "length h1 = length h + n" by simp
  ultimately have "map raw s2 = map raw s0 @ [length h ..< length h + (n + m)]"
    using assms(2,4) by simp
  moreover from assms(1,3) have "h2 = h @ replicate (n + m) []"
    by (simp add: replicate_add)
  ultimately show ?thesis by simp
qed

lemma range_category_alloc:
  "range_category cname fs secs h = Inr (secs', h') \<Longrightarrow>
     \<exists>n. h' = h @ replicate n [] \<and> map raw secs' = map raw secs @ [length h ..< length h + n]"
proof (induction fs arbitrary: secs h)
  case Nil
  then have "h' = h @ replicate 0 [] \<and> map raw secs' = map raw secs @ [length h ..< length h + 0]"
    by simp
  then show ?case by blast
next
  case (Cons f fs)
  obtain plugin v where f: "f = (plugin, v)" by (cases f)
  from Cons.prems f obtain tbls where v: "v = TablesF tbls"
    by (cases v) auto
  obtain s1 h1 where t: "range_tbls cname tbls secs h = (s1, h1)"
    by (cases "range_tbls cname tbls secs h")
  with Cons.prems f v have rest: "range_category cname fs s1 h1 = Inr (secs', h')" by simp
  from range_tbls_alloc [OF t] have
    a: "h1 = h @ replicate (length tbls) []"
       "map raw s1 = map raw secs @ [length h ..< length h + length tbls]"
    by simp_all
  from Cons.IH [OF rest] obtain m where
    b: "h' = h1 @ replicate m []" "map raw secs' = map raw s1 @ [length h1 ..< length h1 + m]"
    by blast
  from alloc_trans [OF a b] show ?case by blast
qed

lemma range_root_alloc:
  "range_root fs secs h = Inr (secs', h') \<Longrightarrow>
     \<exists>n. h' = h @ replicate n [] \<and> map raw secs' = map raw secs @ [length h ..< length h + n]"
proof (induction fs arbitrary: secs h)
  case Nil
  then have "h' = h @ replicate 0 [] \<and> map raw secs' = map raw secs @ [length h ..< length h + 0]"
    by simp
  then show ?case by blast
next
  case (Cons f fs)
  obtain fname v where f: "f = (fname, v)" by (cases f)
  from Cons.prems f obtain tbl where v: "v = TableF tbl"
    by (cases v) (auto split: if_splits)
  show ?case
  proof (cases "fname \<in> set categories")
    case True
    with Cons.prems f v obtain s1 h1 where
      c: "range_category fname (Fields tbl) secs h = Inr (s1, h1)" and
      rest: "range_root fs s1 h1 = Inr (secs', h')"
      by (auto split: sum.splits)
    from range_category_alloc [OF c] obtain n where
      a: "h1 = h @ replicate n []" "map raw s1 = map raw secs @ [length h ..< length h + n]"
      by blast
    from Cons.IH [OF rest] obtain m where
      b: "h' = h1 @ replicate m []" "map raw secs' = map raw s1 @ [length h1 ..< length h1 + m]"
      by blast
    from alloc_trans [OF a b] show ?thesis by blast
  next
    case False
    let ?s = "\<lparr>name = fname, begin_line = Line tbl, content = Some tbl, raw = length h\<rparr>"
    from False Cons.prems f v have rest: "range_root fs (secs @ [?s]) (h @ [[]]) = Inr (secs', h')"
      by (simp add: NewBuffer_def)
    have a: "h @ [[]] = h @ replicate 1 []"
      "map raw (secs @ [?s]) = map raw secs @ [length h ..< length h + 1]"
      by simp_all
    from Cons.IH [OF rest] obtain m where
      b: "h' = (h @ [[]]) @ replicate m []"
         "map raw secs' = map raw (secs @ [?s]) @ [length (h @ [[]]) ..< length (h @ [[]]) + m]"
      by blast
    from alloc_trans [OF a b] show ?thesis by blast
  qed
qed

lemma splitToSections_alloc:
  assumes "splitToSections root h = Inr (ss, h')"
  shows "distinct (map raw ss)"
    and "\<forall>s \<in> set ss. length h \<le> raw s \<and> raw s < length h' \<and> h' ! raw s = []"
    and "length h \<le> length h'"
    and "sorted (map begin_line ss)"
    and "\<exists>n. h' = h @ replicate n []"
proof -
  from assms obtain found where
    found: "range_root (Fields root) [] h = Inr (found, h')" and
    ss: "ss = sort_key begin_line found"
    by (auto simp: splitToSections_def SliceStable_def split: sum.splits)
  from range_root_alloc [OF found] obtain n where
    h': "h' = h @ replicate n []" and raws: "map raw found = [length h ..< length h + n]"
    by auto
  have "mset (map raw ss) = mset (map raw found)"
    unfolding ss by simp
  moreover from raws have "distinct (map raw found)" by simp
  ultimately show "distinct (map raw ss)"
    by (metis mset_eq_imp_distinct_iff)
  have "set (map raw ss) = set (map raw found)"
    unfolding ss by simp
  with raws have "\<forall>s \<in> set ss. length h \<le> raw s \<and> raw s < length h + n"
    by auto
  with h' show "\<forall>s \<in> set ss. length h \<le> raw s \<and> raw s < length h' \<and> h' ! raw s = []"
    by (auto simp: nth_append)
  from h' show "length h \<le> length h'" by simp
  show "sorted (map begin_line ss)"
    unfolding ss by (rule sorted_sort_key)
  from h' show "\<exists>n. h' = h @ replicate n []" ..
qed

subsection \<open>One section per table occurrence\<close>

lemma range_tbls_new:
  "range_tbls cname tbls secs h = (secs', h') \<Longrightarrow>
     \<exists>new. secs' = secs @ new \<and> length new = length tbls \<and>
       (\<forall>k < length tbls. new ! k =
          \<lparr>name = cname @ ''.'' @ Name (tbls ! k), begin_line = Line (tbls ! k),
           content = Some (tbls ! k), raw = length h + k\<rparr>)"
proof (induction tbls arbitrary: secs h)
  case Nil
  then show ?case by simp
next
  case (Cons t ts)
  let ?s = "\<lparr>name = cname @ ''.'' @ Name t, begin_line = Line t, content = Some t,
    raw = length h\<rparr>"
  from Cons.prems have "range_tbls cname ts (secs @ [?s]) (h @ [[]]) = (secs', h')"
    by (simp add: NewBuffer_def)
  from Cons.IH [OF this] obtain new where
    secs': "secs' = (secs @ [?s]) @ new" and len: "length new = length ts" and
    new: "\<forall>k < length ts. new ! k =
          \<lparr>name = cname @ ''.'' @ Name (ts ! k), begin_line = Line (ts ! k),
           content = Some (ts ! k), raw = length (h @ [[]]) + k\<rparr>"
    by blast
  have "\<forall>k < length (t # ts). (?s # new) ! k =
          \<lparr>name = cname @ ''.'' @ Name ((t # ts) ! k), begin_line = Line ((t # ts) ! k),
           content = Some ((t # ts) ! k), raw = length h + k\<rparr>"
  proof (intro allI impI)
    fix k assume "k < length (t # ts)"
    then show "(?s # new) ! k =
          \<lparr>name = cname @ ''.'' @ Name ((t # ts) ! k), begin_line = Line ((t # ts) ! k),
           content = Some ((t # ts) ! k), raw = length h + k\<rparr>"
      using new by (cases k) simp_all
  qed
  moreover have "secs' = secs @ (?s # new)" using secs' by simp
  moreover have "length (?s # new) = length (t # ts)" using len by simp
  ultimately show ?case by blast
qed

lemma range_category_prefix:
  "range_category cname fs secs h = Inr (secs', h') \<Longrightarrow> set secs \<subseteq> set secs'"
proof (induction fs arbitrary: secs h)
  case Nil
  then show ?case by simp
next
  case (Cons f fs)
  obtain plugin v where f: "f = (plugin, v)" by (cases f)
  from Cons.prems f obtain tbls where v: "v = TablesF tbls"
    by (cases v) auto
  obtain s1 h1 where t: "range_tbls cname tbls secs h = (s1, h1)"
    by (cases "range_tbls cname tbls secs h")
  with Cons.prems f v have rest: "range_category cname fs s1 h1 = Inr (secs', h')" by simp
  from range_tbls_new [OF t] have "set secs \<subseteq> set s1" by auto
  with Cons.IH [OF rest] show ?case by blast
qed

lemma range_category_member:
  "range_category cname fs secs h = Inr (secs', h') \<Longrightarrow> (plugin, TablesF tbls) \<in> set fs \<Longrightarrow>
     \<exists>a. \<forall>k < length tbls.
        \<lparr>name = cname @ ''.'' @ Name (tbls ! k), begin_line = Line (tbls ! k),
         content = Some (tbls ! k), raw = a + k\<rparr> \<in> set secs'"
proof (induction fs arbitrary: secs h)
  case Nil
  then show ?case by simp
next
  case (Cons f fs)
  obtain p v where f: "f = (p, v)" by (cases f)
  from Cons.prems(1) f obtain tb where v: "v = TablesF tb"
    by (cases v) auto
  obtain s1 h1 where t: "range_tbls cname tb secs h = (s1, h1)"
    by (cases "range_tbls cname tb secs h")
  with Cons.prems(1) f v have rest: "range_category cname fs s1 h1 = Inr (secs', h')" by simp
  show ?case
  proof (cases "(plugin, TablesF tbls) = f")
    case True
    with f v have tb: "tb = tbls" by simp
    from range_tbls_new [OF t] tb obtain new where
      s1: "s1 = secs @ new" and len: "length new = length tbls" and
      new: "\<forall>k < length tbls. new ! k =
          \<lparr>name = cname @ ''.'' @ Name (tbls ! k), begin_line = Line (tbls ! k),
           content = Some (tbls ! k), raw = length h + k\<rparr>"
      by blast
    have "\<forall>k < length tbls.
        \<lparr>name = cname @ ''.'' @ Name (tbls ! k), begin_line = Line (tbls ! k),
         content = Some (tbls ! k), raw = length h + k\<rparr> \<in> set secs'"
    proof (intro allI impI)
      fix k assume k: "k < length tbls"
      with len have "new ! k \<in> set new" by simp
      with s1 range_category_prefix [OF rest] have "new ! k \<in> set secs'" by auto
      with new k show "\<lparr>name = cname @ ''.'' @ Name (tbls ! k), begin_line = Line (tbls ! k),
         content = Some (tbls ! k), raw = length h + k\<rparr> \<in> set secs'"
        by simp
    qed
    then show ?thesis by blast
  next
    case False
    with Cons.prems(2) have "(plugin, TablesF tbls) \<in> set fs" by auto
    from Cons.IH [OF rest this] show ?thesis .
  qed
qed

lemma range_root_prefix:
  "range_root fs secs h = Inr (secs', h') \<Longrightarrow> set secs \<subseteq> set secs'"
proof (induction fs arbitrary: secs h)
  case Nil
  then show ?case by simp
next
  case (Cons f fs)
  obtain fname v where f: "f = (fname, v)" by (cases f)
  from Cons.prems f obtain tbl where v: "v = TableF tbl"
    by (cases v) (auto split: if_splits)
  show ?case
  proof (cases "fname \<in> set categories")
    case True
    with Cons.prems f v obtain s1 h1 where
      c: "range_category fname (Fields tbl) secs h = Inr (s1, h1)" and
      rest: "range_root fs s1 h1 = Inr (secs', h')"
      by (auto split: sum.splits)
    from range_category_prefix [OF c] Cons.IH [OF rest] show ?thesis by blast
  next
    case False
    let ?s = "\<lparr>name = fname, begin_line = Line tbl, content = Some tbl, raw = length h\<rparr>"
    from False Cons.prems f v have rest: "range_root fs (secs @ [?s]) (h @ [[]]) = Inr (secs', h')"
      by (simp add: NewBuffer_def)
    from Cons.IH [OF rest] show ?thesis by simp
  qed
qed

lemma range_root_member:
  "range_root fs secs h = Inr (secs', h') \<Longrightarrow>
   (cname, TableF category) \<in> set fs \<Longrightarrow> cname \<in> set categories \<Longrightarrow>
   (plugin, TablesF tbls) \<in> set (Fields category) \<Longrightarrow>
     \<exists>a. \<forall>k < length tbls.
        \<lparr>name = cname @ ''.'' @ Name (tbls ! k), begin_line = Line (tbls ! k),
         content = Some (tbls ! k), raw = a + k\<rparr> \<in> set secs'"
proof (induction fs arbitrary: secs h)
  case Nil
  then show ?case by simp
next
  case (Cons f fs)
  obtain fname v where f: "f = (fname, v)" by (cases f)
  from Cons.prems(1) f obtain tbl where v: "v = TableF tbl"
    by (cases v) (auto split: if_splits)
  show ?case
  proof (cases "fname \<in> set categories")
    case True
    with Cons.prems(1) f v obtain s1 h1 where
      c: "range_category fname (Fields tbl) secs h = Inr (s1, h1)" and
      rest: "range_root fs s1 h1 = Inr (secs', h')"
      by (auto split: sum.splits)
    show ?thesis
    proof (cases "(cname, TableF category) = f")
      case here: True
      with f v have "fname = cname" "tbl = category" by simp_all
      with c Cons.prems(4) range_category_member
      obtain a where "\<forall>k < length tbls.
        \<lparr>name = cname @ ''.'' @ Name (tbls ! k), begin_line = Line (tbls ! k),
         content = Some (tbls ! k), raw = a + k\<rparr> \<in> set s1"
        by blast
      with range_root_prefix [OF rest] show ?thesis by blast
    next
      case False
      with Cons.prems(2) have "(cname, TableF category) \<in> set fs" by auto
      from Cons.IH [OF rest this Cons.prems(3,4)] show ?thesis .
    qed
  next
    case False
    let ?s = "\<lparr>name = fname, begin_line = Line tbl, content = Some tbl, raw = length h\<rparr>"
    from False Cons.prems(1) f v
    have rest: "range_root fs (secs @ [?s]) (h @ [[]]) = Inr (secs', h')"
      by (simp add: NewBuffer_def)
    from False Cons.prems(2,3) f have "(cname, TableF category) \<in> set fs" by auto
    from Cons.IH [OF rest this Cons.prems(3,4)] show ?thesis .
  qed
qed

text \<open>
  Claim C8. When a category of the document holds, under one key, a list of tables that
  all carry that key as their name, two occurrences in that list give two sections at
  different positions of the result of \<^verbatim>\<open>splitToSections\<close>; both are named
  \<open>category.key\<close>, each has the line and the content of its own occurrence. When the
  name is registered, the dispatch loop calls the migration on the content of each of
  the two: if no registered function fails on a section of the document, the loop ends
  without error and the buffers of the two sections hold what the migration returned on
  the one and on the other occurrence; and if the migration fails on one of the two
  occurrences, the loop fails.
\<close>

theorem multiple_instances:
  assumes split: "splitToSections root h = Inr (ss, h1)"
    and category: "(cname, TableF category) \<in> set (Fields root)" "cname \<in> set categories"
    and plugin: "(plugin, TablesF tbls) \<in> set (Fields category)"
    and names: "\<forall>tbl \<in> set tbls. Name tbl = plugin"
    and occurrences: "i < j" "j < length tbls"
  shows "\<exists>m n. m < length ss \<and> n < length ss \<and> m \<noteq> n \<and>
      name (ss ! m) = cname @ ''.'' @ plugin \<and> begin_line (ss ! m) = Line (tbls ! i) \<and>
      content (ss ! m) = Some (tbls ! i) \<and>
      name (ss ! n) = cname @ ''.'' @ plugin \<and> begin_line (ss ! n) = Line (tbls ! j) \<and>
      content (ss ! n) = Some (tbls ! j) \<and>
      (\<forall>reg migrate h2 ss' h3.
         reg (cname @ ''.'' @ plugin) = Some migrate \<and>
         migrate_sections reg ss h2 = Inr (ss', h3) \<and> length h1 \<le> length h2 \<longrightarrow>
           migrate (Some (tbls ! i)) = Inr (h3 ! raw (ss' ! m)) \<and>
           migrate (Some (tbls ! j)) = Inr (h3 ! raw (ss' ! n))) \<and>
      (\<forall>reg migrate h2.
         reg (cname @ ''.'' @ plugin) = Some migrate \<and> length h1 \<le> length h2 \<and>
         \<not> list_ex (failing reg) ss \<longrightarrow>
           (\<exists>ss' h3 ri rj. migrate_sections reg ss h2 = Inr (ss', h3) \<and>
              migrate (Some (tbls ! i)) = Inr ri \<and> migrate (Some (tbls ! j)) = Inr rj \<and>
              h3 ! raw (ss' ! m) = ri \<and> h3 ! raw (ss' ! n) = rj)) \<and>
      (\<forall>reg migrate h2.
         reg (cname @ ''.'' @ plugin) = Some migrate \<and>
         (isl (migrate (Some (tbls ! i))) \<or> isl (migrate (Some (tbls ! j)))) \<longrightarrow>
           (\<exists>e. migrate_sections reg ss h2 = Inl e))"
proof -
  from split obtain found where
    found: "range_root (Fields root) [] h = Inr (found, h1)" and
    ss: "ss = sort_key begin_line found"
    by (auto simp: splitToSections_def SliceStable_def split: sum.splits)
  from range_root_member [OF found category plugin] obtain a where
    a: "\<forall>k < length tbls.
        \<lparr>name = cname @ ''.'' @ Name (tbls ! k), begin_line = Line (tbls ! k),
         content = Some (tbls ! k), raw = a + k\<rparr> \<in> set found"
    by blast
  let ?x = "\<lparr>name = cname @ ''.'' @ plugin, begin_line = Line (tbls ! i),
         content = Some (tbls ! i), raw = a + i\<rparr>"
  let ?y = "\<lparr>name = cname @ ''.'' @ plugin, begin_line = Line (tbls ! j),
         content = Some (tbls ! j), raw = a + j\<rparr>"
  from occurrences have i: "i < length tbls" by simp
  from names i occurrences have "Name (tbls ! i) = plugin" "Name (tbls ! j) = plugin"
    by simp_all
  with a i occurrences have "?x \<in> set found" "?y \<in> set found"
    by (metis)+
  then have mem: "?x \<in> set ss" "?y \<in> set ss"
    unfolding ss by simp_all
  then obtain m n where m: "m < length ss" "ss ! m = ?x" and n: "n < length ss" "ss ! n = ?y"
    by (auto simp: in_set_conv_nth)
  from occurrences have "?x \<noteq> ?y" by simp
  with m n have mn: "m \<noteq> n" by auto
  have dispatch: "migrate (Some (tbls ! i)) = Inr (h3 ! raw (ss' ! m)) \<and>
           migrate (Some (tbls ! j)) = Inr (h3 ! raw (ss' ! n))"
    if reg: "reg (cname @ ''.'' @ plugin) = Some migrate"
      and run: "migrate_sections reg ss h2 = Inr (ss', h3)" and len: "length h1 \<le> length h2"
    for reg migrate h2 ss' h3
  proof -
    from splitToSections_alloc(2) [OF split] len have "\<forall>s \<in> set ss. raw s < length h2"
      by auto
    from migrate_sections_dispatched [OF run this]
    have all: "list_all2 (dispatched reg h2 h3) ss ss'" .
    from all m(1) have "dispatched reg h2 h3 (ss ! m) (ss' ! m)"
      by (simp add: list_all2_nthD)
    with m(2) reg have 1: "migrate (Some (tbls ! i)) = Inr (h3 ! raw (ss' ! m))"
      by (simp add: dispatched_def)
    from all n(1) have "dispatched reg h2 h3 (ss ! n) (ss' ! n)"
      by (simp add: list_all2_nthD)
    with n(2) reg have 2: "migrate (Some (tbls ! j)) = Inr (h3 ! raw (ss' ! n))"
      by (simp add: dispatched_def)
    from 1 2 show ?thesis ..
  qed
  have succeeds: "\<exists>ss' h3 ri rj. migrate_sections reg ss h2 = Inr (ss', h3) \<and>
              migrate (Some (tbls ! i)) = Inr ri \<and> migrate (Some (tbls ! j)) = Inr rj \<and>
              h3 ! raw (ss' ! m) = ri \<and> h3 ! raw (ss' ! n) = rj"
    if reg: "reg (cname @ ''.'' @ plugin) = Some migrate" and len: "length h1 \<le> length h2"
      and ok: "\<not> list_ex (failing reg) ss"
    for reg migrate h2
  proof -
    from ok migrate_sections_fails_iff [of reg ss h2]
    have "\<nexists>e. migrate_sections reg ss h2 = Inl e" by simp
    then obtain ss' h3 where run: "migrate_sections reg ss h2 = Inr (ss', h3)"
      by (cases "migrate_sections reg ss h2") auto
    from dispatch [OF reg run len] run show ?thesis by metis
  qed
  have fails: "\<exists>e. migrate_sections reg ss h2 = Inl e"
    if reg: "reg (cname @ ''.'' @ plugin) = Some migrate"
      and bad: "isl (migrate (Some (tbls ! i))) \<or> isl (migrate (Some (tbls ! j)))"
    for reg migrate h2
  proof -
    from reg bad have "failing reg ?x \<or> failing reg ?y"
      by (simp add: failing_def)
    with mem have "list_ex (failing reg) ss"
      by (auto simp: list_ex_iff)
    with migrate_sections_fails_iff [of reg ss h2] show ?thesis by simp
  qed
  from m n have props: "name (ss ! m) = cname @ ''.'' @ plugin" "begin_line (ss ! m) = Line (tbls ! i)"
      "content (ss ! m) = Some (tbls ! i)"
      "name (ss ! n) = cname @ ''.'' @ plugin" "begin_line (ss ! n) = Line (tbls ! j)"
      "content (ss ! n) = Some (tbls ! j)"
    by simp_all
  have old: "\<forall>reg migrate h2 ss' h3.
         reg (cname @ ''.'' @ plugin) = Some migrate \<and>
         migrate_sections reg ss h2 = Inr (ss', h3) \<and> length h1 \<le> length h2 \<longrightarrow>
           migrate (Some (tbls ! i)) = Inr (h3 ! raw (ss' ! m)) \<and>
           migrate (Some (tbls ! j)) = Inr (h3 ! raw (ss' ! n))"
    using dispatch by blast
  have new: "\<forall>reg migrate h2.
         reg (cname @ ''.'' @ plugin) = Some migrate \<and> length h1 \<le> length h2 \<and>
         \<not> list_ex (failing reg) ss \<longrightarrow>
           (\<exists>ss' h3 ri rj. migrate_sections reg ss h2 = Inr (ss', h3) \<and>
              migrate (Some (tbls ! i)) = Inr ri \<and> migrate (Some (tbls ! j)) = Inr rj \<and>
              h3 ! raw (ss' ! m) = ri \<and> h3 ! raw (ss' ! n) = rj)"
    using succeeds by blast
  have bad: "\<forall>reg migrate h2.
         reg (cname @ ''.'' @ plugin) = Some migrate \<and>
         (isl (migrate (Some (tbls ! i))) \<or> isl (migrate (Some (tbls ! j)))) \<longrightarrow>
           (\<exists>e. migrate_sections reg ss h2 = Inl e)"
    using fails by blast
  show ?thesis
    apply (rule exI [of _ m], rule exI [of _ n])
    using m(1) n(1) mn props old new bad by (intro conjI)
qed

theorem multiple_instances_witness:
  "splitToSections cpu_root [] = Inr (cpu_sections, [[], [], [], []]) \<and>
   (''inputs'', TableF (Table ''inputs'' 3
       [(''cpu'', TablesF [Table ''cpu'' 3 [(''percpu'', KeyValueF ''percpu'' 4)],
                           Table ''cpu'' 5 []])])) \<in> set (Fields cpu_root) \<and>
   ''inputs'' \<in> set categories \<and>
   migrate_sections percpu_registry cpu_sections cpu_store =
     Inr (cpu_sections [1 := (cpu_sections ! 1)\<lparr>raw := 5\<rparr>, 2 := (cpu_sections ! 2)\<lparr>raw := 6\<rparr>],
          cpu_store @ [''[[inputs.cpu_v2]]'' @ [LF] @ ''  per_core = true'' @ [LF],
                       ''[[inputs.cpu_v2]]'' @ [LF]]) \<and>
   (\<exists>m n. m < length cpu_sections \<and> n < length cpu_sections \<and> m \<noteq> n \<and>
      name (cpu_sections ! m) = ''inputs.cpu'' \<and> begin_line (cpu_sections ! m) = 3 \<and>
      name (cpu_sections ! n) = ''inputs.cpu'' \<and> begin_line (cpu_sections ! n) = 5 \<and>
      (cpu_store @ [''[[inputs.cpu_v2]]'' @ [LF] @ ''  per_core = true'' @ [LF],
                    ''[[inputs.cpu_v2]]'' @ [LF]]) !
        raw (cpu_sections [1 := (cpu_sections ! 1)\<lparr>raw := 5\<rparr>,
                           2 := (cpu_sections ! 2)\<lparr>raw := 6\<rparr>] ! m) =
        ''[[inputs.cpu_v2]]'' @ [LF] @ ''  per_core = true'' @ [LF] \<and>
      (cpu_store @ [''[[inputs.cpu_v2]]'' @ [LF] @ ''  per_core = true'' @ [LF],
                    ''[[inputs.cpu_v2]]'' @ [LF]]) !
        raw (cpu_sections [1 := (cpu_sections ! 1)\<lparr>raw := 5\<rparr>,
                           2 := (cpu_sections ! 2)\<lparr>raw := 6\<rparr>] ! n) =
        ''[[inputs.cpu_v2]]'' @ [LF])"
proof -
  let ?tbls = "[Table ''cpu'' 3 [(''percpu'', KeyValueF ''percpu'' 4)], Table ''cpu'' 5 []]"
  let ?category = "Table ''inputs'' 3 [(''cpu'', TablesF ?tbls)]"
  let ?ss' = "cpu_sections [1 := (cpu_sections ! 1)\<lparr>raw := 5\<rparr>, 2 := (cpu_sections ! 2)\<lparr>raw := 6\<rparr>]"
  let ?h' = "cpu_store @ [''[[inputs.cpu_v2]]'' @ [LF] @ ''  per_core = true'' @ [LF],
                       ''[[inputs.cpu_v2]]'' @ [LF]]"
  have split: "splitToSections cpu_root [] = Inr (cpu_sections, [[], [], [], []])"
    by code_simp
  have category: "(''inputs'', TableF ?category) \<in> set (Fields cpu_root)"
    "''inputs'' \<in> set categories"
    by (simp_all add: cpu_root_def categories_def)
  have plugin: "(''cpu'', TablesF ?tbls) \<in> set (Fields ?category)"
    by simp
  have names: "\<forall>tbl \<in> set ?tbls. Name tbl = ''cpu''"
    by simp
  have occurrences: "(0::nat) < 1" "1 < length ?tbls"
    by simp_all
  have run: "migrate_sections percpu_registry cpu_sections cpu_store = Inr (?ss', ?h')"
    by code_simp
  have registered: "percpu_registry (''inputs'' @ ''.'' @ ''cpu'') = Some percpu_migration"
    by (simp add: percpu_registry_def)
  have len: "length [[], [], [], []::string] \<le> length cpu_store"
    by (simp add: cpu_store_def)
  have ok: "\<not> list_ex (failing percpu_registry) cpu_sections"
    by (simp add: failing_def percpu_registry_def percpu_migration_def cpu_sections_def)
  have results: "percpu_migration (Some (?tbls ! 0)) =
      Inr (''[[inputs.cpu_v2]]'' @ [LF] @ ''  per_core = true'' @ [LF])"
    "percpu_migration (Some (?tbls ! 1)) = Inr (''[[inputs.cpu_v2]]'' @ [LF])"
    by (simp_all add: percpu_migration_def)
  from multiple_instances [OF split category plugin names occurrences]
  obtain m n where mn: "m < length cpu_sections" "n < length cpu_sections" "m \<noteq> n"
    "name (cpu_sections ! m) = ''inputs'' @ ''.'' @ ''cpu''"
    "begin_line (cpu_sections ! m) = Line (?tbls ! 0)"
    "name (cpu_sections ! n) = ''inputs'' @ ''.'' @ ''cpu''"
    "begin_line (cpu_sections ! n) = Line (?tbls ! 1)"
    and dispatch: "\<forall>reg migrate h2.
         reg (''inputs'' @ ''.'' @ ''cpu'') = Some migrate \<and>
         length [[], [], [], []::string] \<le> length h2 \<and>
         \<not> list_ex (failing reg) cpu_sections \<longrightarrow>
           (\<exists>ss' h3 ri rj. migrate_sections reg cpu_sections h2 = Inr (ss', h3) \<and>
              migrate (Some (?tbls ! 0)) = Inr ri \<and> migrate (Some (?tbls ! 1)) = Inr rj \<and>
              h3 ! raw (ss' ! m) = ri \<and> h3 ! raw (ss' ! n) = rj)"
    by blast
  from dispatch registered len ok
  obtain ss' h3 ri rj where "migrate_sections percpu_registry cpu_sections cpu_store = Inr (ss', h3)"
    "percpu_migration (Some (?tbls ! 0)) = Inr ri" "percpu_migration (Some (?tbls ! 1)) = Inr rj"
    "h3 ! raw (ss' ! m) = ri" "h3 ! raw (ss' ! n) = rj"
    by blast
  with run results have buffers:
    "?h' ! raw (?ss' ! m) = ''[[inputs.cpu_v2]]'' @ [LF] @ ''  per_core = true'' @ [LF]"
    "?h' ! raw (?ss' ! n) = ''[[inputs.cpu_v2]]'' @ [LF]"
    by simp_all
  from mn have "name (cpu_sections ! m) = ''inputs.cpu''" "begin_line (cpu_sections ! m) = 3"
    "name (cpu_sections ! n) = ''inputs.cpu''" "begin_line (cpu_sections ! n) = 5"
    by simp_all
  with mn(1-3) buffers
  have "\<exists>m n. m < length cpu_sections \<and> n < length cpu_sections \<and> m \<noteq> n \<and>
      name (cpu_sections ! m) = ''inputs.cpu'' \<and> begin_line (cpu_sections ! m) = 3 \<and>
      name (cpu_sections ! n) = ''inputs.cpu'' \<and> begin_line (cpu_sections ! n) = 5 \<and>
      ?h' ! raw (?ss' ! m) = ''[[inputs.cpu_v2]]'' @ [LF] @ ''  per_core = true'' @ [LF] \<and>
      ?h' ! raw (?ss' ! n) = ''[[inputs.cpu_v2]]'' @ [LF]"
    by blast
  with split category run show ?thesis by blast
qed

section \<open>Properties of the reconstruction\<close>

subsection \<open>Scanning lines\<close>

lemma terminated_simps [simp]:
  "terminated [] = []"
  "terminated (l # ls) = l @ LF # terminated ls"
  "terminated (xs @ ys) = terminated xs @ terminated ys"
  by (simp_all add: terminated_def)

lemma Scan_Nil [simp]: "Scan [] = EOF"
  by (simp add: Scan_def)

lemma Scan_line:
  assumes "scannable l"
  shows "Scan (l @ LF # input) = Token (dropCR l) input"
proof -
  from assms have "takeWhile (\<lambda>c. c \<noteq> LF) (l @ LF # input) = l"
    by (auto simp: scannable_def takeWhile_tail)
  with assms show ?thesis
    by (simp add: Scan_def scannable_def)
qed

lemma scan_section_stop:
  "\<not> lineno < limit \<or> scanner = [] \<Longrightarrow>
     scan_section limit scanner lineno buf acc = Inr (scanner, lineno, buf, acc)"
  by (auto simp: scan_section.simps [of limit scanner])

lemma scan_section_line:
  assumes "scannable l" "lineno < limit"
  shows "scan_section limit (l @ LF # input) lineno buf acc =
    (case feed_line (dropCR l) (buf, acc) of
       (buf', acc') \<Rightarrow> scan_section limit input (lineno + 1) buf' acc')"
  using assms
  by (simp add: scan_section.simps [of limit "l @ LF # input"] Scan_line
      is_comment_def is_blank_def Let_def)

lemma scan_section_lines:
  assumes "\<forall>l \<in> set xs. scannable l" "lineno + int (length xs) \<le> limit"
  shows "scan_section limit (terminated xs @ input) lineno buf acc =
    (case fold feed_line (map dropCR xs) (buf, acc) of
       (buf', acc') \<Rightarrow> scan_section limit input (lineno + int (length xs)) buf' acc')"
  using assms
proof (induction xs arbitrary: lineno buf acc)
  case Nil
  then show ?case by simp
next
  case (Cons l xs)
  obtain buf1 acc1 where step: "feed_line (dropCR l) (buf, acc) = (buf1, acc1)"
    by (cases "feed_line (dropCR l) (buf, acc)")
  from Cons.prems have l: "scannable l" "lineno < limit" by simp_all
  from Cons.prems have rest: "\<forall>l \<in> set xs. scannable l" "(lineno + 1) + int (length xs) \<le> limit"
    by simp_all
  have "scan_section limit (terminated (l # xs) @ input) lineno buf acc =
      scan_section limit (terminated xs @ input) (lineno + 1) buf1 acc1"
    using scan_section_line [OF l, of "terminated xs @ input" buf acc] step by simp
  also have "\<dots> = (case fold feed_line (map dropCR xs) (buf1, acc1) of
       (buf', acc') \<Rightarrow> scan_section limit input ((lineno + 1) + int (length xs)) buf' acc')"
    by (rule Cons.IH [OF rest])
  finally show ?case
    using step by (simp add: add.assoc)
qed

lemma write_remaining_lines:
  assumes "\<forall>l \<in> set xs. scannable l"
  shows "write_remaining (terminated xs) acc = Inr (acc @ terminated (map dropCR xs))"
  using assms
proof (induction xs arbitrary: acc)
  case Nil
  then show ?case by (simp add: write_remaining.simps [of "[]"])
next
  case (Cons l xs)
  then have "write_remaining (terminated (l # xs)) acc =
      write_remaining (terminated xs) (acc @ dropCR l @ [LF])"
    by (simp add: write_remaining.simps [of "l @ LF # terminated xs"] Scan_line)
  with Cons show ?case by simp
qed

text \<open>The inner loop on the lines from position \<open>k\<close> on.\<close>

lemma scan_section_range:
  fixes limit :: int and k :: nat and ls :: "string list"
  assumes "\<forall>l \<in> set ls. scannable l"
  defines "xs \<equiv> take (nat (limit - int k)) (drop k ls)"
  shows "scan_section limit (terminated (drop k ls)) (int k) buf acc =
    (case fold feed_line (map dropCR xs) (buf, acc) of
       (buf', acc') \<Rightarrow> Inr (terminated (drop (k + length xs) ls), int (k + length xs), buf', acc'))"
proof -
  obtain buf' acc' where fed: "fold feed_line (map dropCR xs) (buf, acc) = (buf', acc')"
    by (cases "fold feed_line (map dropCR xs) (buf, acc)")
  have split: "drop k ls = xs @ drop (k + length xs) ls"
    unfolding xs_def by (metis add.commute append_take_drop_id drop_drop length_take min.commute
        take_all_iff drop_all append_Nil2 linorder_le_cases min_def)
  have scannable: "\<forall>l \<in> set xs. scannable l"
    using assms(1) unfolding xs_def by (meson in_set_dropD in_set_takeD)
  have bound: "int k + int (length xs) \<le> limit \<or> xs = []"
    unfolding xs_def by (cases "int k \<le> limit") auto
  have stop: "\<not> int k + int (length xs) < limit \<or> drop (k + length xs) ls = []"
    unfolding xs_def by (auto simp: min_def)
  show ?thesis
  proof (cases "xs = []")
    case True
    with stop have "\<not> int k < limit \<or> terminated (drop k ls) = []" by auto
    from scan_section_stop [OF this] True fed show ?thesis
      by simp
  next
    case False
    with bound have "int k + int (length xs) \<le> limit" by simp
    from scan_section_lines [OF scannable this, of "terminated (drop (k + length xs) ls)" buf acc]
    have "scan_section limit (terminated (drop k ls)) (int k) buf acc =
        scan_section limit (terminated (drop (k + length xs) ls)) (int k + int (length xs)) buf' acc'"
      using fed split by (metis terminated_simps(3) case_prod_conv)
    moreover have "\<not> int k + int (length xs) < limit \<or> terminated (drop (k + length xs) ls) = []"
      using stop by auto
    ultimately show ?thesis
      using fed by (simp add: scan_section_stop)
  qed
qed

subsection \<open>What a run of lines does to the pending comments\<close>


lemma fold_comments:
  "\<forall>tok \<in> set toks. is_comment tok \<Longrightarrow>
     fold feed_line toks (buf, acc) = (buf @ terminated toks, acc)"
  by (induction toks arbitrary: buf) simp_all


lemma fold_settled:
  "settled (buf \<noteq> []) toks \<Longrightarrow> fold feed_line toks (buf, acc) = (buf', acc') \<Longrightarrow>
     acc' @ buf' = acc @ buf @ terminated toks"
proof (induction toks arbitrary: buf acc)
  case Nil
  then show ?case by simp
next
  case (Cons tok toks)
  show ?case
  proof (cases "is_comment tok")
    case True
    with Cons.prems have "settled (buf @ tok @ [LF] \<noteq> []) toks"
      "fold feed_line toks (buf @ tok @ [LF], acc) = (buf', acc')"
      by simp_all
    from Cons.IH [OF this] show ?thesis by simp
  next
    case False
    show ?thesis
    proof (cases "buf = []")
      case True
      with False Cons.prems have "settled (([]::string) \<noteq> []) toks"
        "fold feed_line toks ([], acc @ tok @ [LF]) = (buf', acc')"
        by simp_all
      from Cons.IH [OF this] True show ?thesis by simp
    next
      case nonempty: False
      with False Cons.prems have blank: "is_blank tok" by simp
      with False nonempty Cons.prems have "settled (([]::string) \<noteq> []) toks"
        "fold feed_line toks ([], acc @ buf @ tok @ [LF]) = (buf', acc')"
        by simp_all
      from Cons.IH [OF this] show ?thesis by simp
    qed
  qed
qed



subsection \<open>Invariants of the scanning loops\<close>

lemma scan_section_invariant:
  assumes run: "scan_section limit scanner lineno buf acc = Inr (scanner', lineno', buf', acc')"
    and init: "I scanner buf acc"
    and step: "\<And>sc tok sc1 b a. I sc b a \<Longrightarrow> Scan sc = Token tok sc1 \<Longrightarrow>
        I sc1 (b @ tok @ [LF]) a \<and> I sc1 [] (a @ b @ tok @ [LF]) \<and> I sc1 b (a @ tok @ [LF])"
  shows "I scanner' buf' acc'"
  using run init
proof (induction limit scanner lineno buf acc rule: scan_section.induct)
  case (1 limit scanner lineno buf acc)
  show ?case
  proof (cases "lineno < limit")
    case False
    with "1.prems" show ?thesis by (simp add: scan_section.simps [of limit scanner])
  next
    case True
    show ?thesis
    proof (cases "Scan scanner")
      case EOF
      with True "1.prems" show ?thesis by (simp add: scan_section.simps [of limit scanner])
    next
      case ErrTooLong
      with True "1.prems" show ?thesis by (simp add: scan_section.simps [of limit scanner])
    next
      case (Token tok sc1)
      note inv = step [OF "1.prems"(2) Token]
      show ?thesis
      proof (cases "HasPrefix (TrimSpace tok) ''#''")
        case c: True
        from "1.prems"(1) True Token c
        have "scan_section limit sc1 (lineno + 1) (buf @ tok @ [LF]) acc =
            Inr (scanner', lineno', buf', acc')"
          by (simp add: scan_section.simps [of limit scanner])
        from "1.IH"(1) [OF True Token refl c this] inv show ?thesis by simp
      next
        case c: False
        show ?thesis
        proof (cases "TrimSpace tok = [] \<and> buf \<noteq> []")
          case b: True
          from "1.prems"(1) True Token c b
          have "scan_section limit sc1 (lineno + 1) [] (acc @ buf @ tok @ [LF]) =
              Inr (scanner', lineno', buf', acc')"
            by (simp add: scan_section.simps [of limit scanner])
          from "1.IH"(2) [OF True Token refl c b this] inv show ?thesis by simp
        next
          case b: False
          from "1.prems"(1) True Token c b
          have "scan_section limit sc1 (lineno + 1) buf (acc @ tok @ [LF]) =
              Inr (scanner', lineno', buf', acc')"
            by (auto simp add: scan_section.simps [of limit scanner])
          from "1.IH"(3) [OF True Token refl c b this] inv show ?thesis by simp
        qed
      qed
    qed
  qed
qed

lemma write_remaining_invariant:
  assumes run: "write_remaining scanner acc = Inr acc'"
    and init: "I scanner acc"
    and step: "\<And>sc tok sc1 a. I sc a \<Longrightarrow> Scan sc = Token tok sc1 \<Longrightarrow> I sc1 (a @ tok @ [LF])"
  shows "\<exists>scanner'. I scanner' acc'"
  using run init
proof (induction scanner acc rule: write_remaining.induct)
  case (1 scanner acc)
  show ?case
  proof (cases "Scan scanner")
    case EOF
    with "1.prems" show ?thesis by (auto simp: write_remaining.simps [of scanner])
  next
    case ErrTooLong
    with "1.prems" show ?thesis by (simp add: write_remaining.simps [of scanner])
  next
    case (Token tok sc1)
    with "1.prems"(1) have "write_remaining sc1 (acc @ tok @ [LF]) = Inr acc'"
      by (simp add: write_remaining.simps [of scanner])
    from "1.IH" [OF Token this step [OF "1.prems"(2) Token]] show ?thesis .
  qed
qed

subsection \<open>Every buffer ends with a line feed\<close>

lemma closed_simps [simp]:
  "closed []" "closed (s @ tok @ [LF])" "closed (s @ b @ tok @ [LF])"
  by (simp_all add: closed_def)

lemma closed_append: "closed s \<Longrightarrow> closed t \<Longrightarrow> closed (s @ t)"
  by (cases "t = []") (auto simp: closed_def)

lemma closed_concat: "\<forall>s \<in> set xs. closed s \<Longrightarrow> closed (concat xs)"
  by (induction xs) (simp_all add: closed_append)

lemma closed_update:
  assumes "\<forall>x \<in> set h. closed x" "closed v"
  shows "\<forall>x \<in> set (h[a := v]). closed x"
proof
  fix x assume "x \<in> set (h[a := v])"
  with set_update_subset_insert [of h a v] have "x = v \<or> x \<in> set h" by blast
  with assms show "closed x" by blast
qed

lemma scan_section_closed:
  assumes "scan_section limit scanner lineno buf acc = Inr (scanner', lineno', buf', acc')"
    and "closed buf" "closed acc"
  shows "closed buf' \<and> closed acc'"
  using assms(1)
proof (rule scan_section_invariant [where I = "\<lambda>sc b a. closed b \<and> closed a"])
  show "closed buf \<and> closed acc" using assms by simp
qed simp

lemma write_remaining_closed:
  assumes "write_remaining scanner acc = Inr acc'" "closed acc"
  shows "closed acc'"
proof -
  from assms(1) have "\<exists>scanner'::string. closed acc'"
    by (rule write_remaining_invariant [where I = "\<lambda>sc a. closed a"]) (simp_all add: assms(2))
  then show ?thesis by simp
qed

lemma range_sections_closed:
  assumes "range_sections cur rest scanner lineno h = Inr (scanner', h')"
    and "\<forall>x \<in> set h. closed x" "raw cur < length h" "\<forall>s \<in> set rest. raw s < length h"
  shows "(\<forall>x \<in> set h'. closed x) \<and> length h' = length h"
  using assms
proof (induction rest arbitrary: cur scanner lineno h)
  case Nil
  then show ?case by simp
next
  case (Cons nxt rest)
  from Cons.prems(1) obtain sc1 l1 buf acc where
    scan: "scan_section (begin_line nxt - 1) scanner lineno [] (h ! raw cur) = Inr (sc1, l1, buf, acc)"
    by (auto split: sum.splits)
  let ?h1 = "h[raw cur := acc]"
  let ?h2 = "if buf \<noteq> [] then ?h1[raw nxt := ?h1 ! raw nxt @ buf] else ?h1"
  from Cons.prems(1) scan have rest: "range_sections nxt rest sc1 l1 ?h2 = Inr (scanner', h')"
    by (simp add: Let_def)
  from Cons.prems(2,3) have "closed (h ! raw cur)" by simp
  with scan_section_closed [OF scan] have c: "closed buf" "closed acc" by simp_all
  have h1: "\<forall>x \<in> set ?h1. closed x"
    using Cons.prems(2) c(2) by (rule closed_update)
  from Cons.prems(4) have "raw nxt < length ?h1" by simp
  then have "?h1 ! raw nxt \<in> set ?h1" by (rule nth_mem)
  with h1 have "closed (?h1 ! raw nxt)" by blast
  then have "closed (?h1 ! raw nxt @ buf)" using c(1) by (rule closed_append)
  with h1 have "\<forall>x \<in> set (?h1[raw nxt := ?h1 ! raw nxt @ buf]). closed x"
    by (rule closed_update)
  with h1 have h2: "\<forall>x \<in> set ?h2. closed x"
    by presburger
  have len: "length ?h2 = length h" by simp
  from Cons.prems(4) len have valid: "raw nxt < length ?h2" "\<forall>s \<in> set rest. raw s < length ?h2"
    by simp_all
  from Cons.IH [OF rest h2 valid] len show ?case by simp
qed

lemma assignTextToSections_closed:
  assumes "assignTextToSections data ss h = Inr h'"
    and "\<forall>x \<in> set h. closed x" "\<forall>s \<in> set ss. raw s < length h"
  shows "(\<forall>x \<in> set h'. closed x) \<and> length h \<le> length h'"
proof -
  from assms(1) have ne: "ss \<noteq> []"
    by (auto simp: assignTextToSections_def)
  obtain ss0 h0 where wh: "with_header ss h = (ss0, h0)"
    by (cases "with_header ss h")
  have 0: "ss0 \<noteq> []" "\<forall>x \<in> set h0. closed x" "\<forall>s \<in> set ss0. raw s < length h0"
    "length h \<le> length h0"
  proof -
    show "ss0 \<noteq> []" using wh ne by (auto simp: with_header_def NewBuffer_def split: if_splits)
    show "\<forall>x \<in> set h0. closed x"
      using wh assms(2) by (auto simp: with_header_def NewBuffer_def split: if_splits)
    show "\<forall>s \<in> set ss0. raw s < length h0"
      using wh assms(3) by (auto simp: with_header_def NewBuffer_def less_Suc_eq split: if_splits)
    show "length h \<le> length h0"
      using wh by (auto simp: with_header_def NewBuffer_def split: if_splits)
  qed
  from assms(1) ne wh obtain sc1 h1 acc where
    loop: "range_sections (hd ss0) (tl ss0) data 0 h0 = Inr (sc1, h1)" and
    last: "write_remaining sc1 (h1 ! raw (last ss0)) = Inr acc" and
    h': "h' = h1[raw (last ss0) := acc]"
    by (auto simp: assignTextToSections_def split: sum.splits)
  from 0 have "raw (hd ss0) < length h0" "\<forall>s \<in> set (tl ss0). raw s < length h0"
    by (auto dest: list.set_sel(2))
  from range_sections_closed [OF loop 0(2) this]
  have 1: "\<forall>x \<in> set h1. closed x" "length h1 = length h0" by simp_all
  from 0 1 have "raw (last ss0) < length h1" by simp
  with 1 have "closed (h1 ! raw (last ss0))" by simp
  from write_remaining_closed [OF last this] have "closed acc" .
  with 1(1) have "\<forall>x \<in> set h'. closed x"
    unfolding h' by (rule closed_update)
  with h' 1 0 show ?thesis by simp
qed

subsection \<open>Carriage returns are dropped, never added\<close>

lemma crs_simps [simp]:
  "crs [] = 0" "crs (c # s) = (if c = CR then 1 else 0) + crs s" "crs (s @ t) = crs s + crs t"
  by (simp_all add: crs_def)

lemma crs_concat: "crs (concat xs) = sum_list (map crs xs)"
  by (induction xs) simp_all

lemma kept_crs_Cons:
  "kept_crs (a # s) = (if a = CR \<and> (s = [] \<or> hd s \<noteq> LF) then 1 else 0) + kept_crs s"
  by (cases s) simp_all

lemma dropCR_Cons:
  "dropCR (a # l) = (if l = [] then (if a = CR then [] else [a]) else a # dropCR l)"
  by (simp add: dropCR_def)

lemma kept_crs_line:
  "LF \<notin> set l \<Longrightarrow> crs (dropCR l) + kept_crs rest \<le> kept_crs (l @ LF # rest)"
proof (induction l)
  case Nil
  then show ?case by (simp add: dropCR_def kept_crs_Cons)
next
  case (Cons a l)
  then show ?case
    by (cases l) (auto simp: dropCR_Cons kept_crs_Cons simp del: kept_crs.simps(1,2))
qed

lemma kept_crs_last_line: "LF \<notin> set l \<Longrightarrow> crs (dropCR l) \<le> kept_crs l"
proof (induction l)
  case Nil
  then show ?case by (simp add: dropCR_def)
next
  case (Cons a l)
  then show ?case
    by (cases l) (auto simp: dropCR_Cons kept_crs_Cons simp del: kept_crs.simps(1,2))
qed

lemma Scan_kept_crs:
  assumes "Scan scanner = Token tok scanner'"
  shows "crs tok + kept_crs scanner' \<le> kept_crs scanner"
proof -
  define l where "l = takeWhile (\<lambda>c. c \<noteq> LF) scanner"
  define r where "r = dropWhile (\<lambda>c. c \<noteq> LF) scanner"
  from assms have tok: "tok = dropCR l" and rest: "scanner' = drop (Suc (length l)) scanner"
    by (auto simp: Scan_def Let_def l_def split: if_splits)
  have noLF: "LF \<notin> set l"
    unfolding l_def by (auto dest: set_takeWhileD)
  have split: "scanner = l @ r"
    unfolding l_def r_def by simp
  show ?thesis
  proof (cases r)
    case Nil
    with split rest have "scanner = l" "scanner' = []" by simp_all
    with tok kept_crs_last_line [OF noLF] show ?thesis by simp
  next
    case (Cons c rest')
    have "r \<noteq> [] \<Longrightarrow> \<not> (hd r \<noteq> LF)"
      unfolding r_def by (rule hd_dropWhile)
    with Cons have "c = LF" by simp
    with Cons split have scanner: "scanner = l @ LF # rest'" by simp
    with rest have "scanner' = rest'" by simp
    with kept_crs_line [OF noLF, of rest'] tok scanner show ?thesis by simp
  qed
qed

lemma kept_crs_le: "kept_crs s \<le> crs s"
  by (induction s) (auto simp: kept_crs_Cons simp del: kept_crs.simps(1,2))

lemma kept_crs_less: "kept_crs (pre @ CR # LF # post) < crs (pre @ CR # LF # post)"
proof (induction pre)
  case Nil
  have "kept_crs post \<le> crs post" by (rule kept_crs_le)
  then show ?case by (simp add: kept_crs_Cons del: kept_crs.simps(1,2))
next
  case (Cons a pre)
  then show ?case by (auto simp: kept_crs_Cons simp del: kept_crs.simps(1,2))
qed


lemma total_crs_update:
  "a < length h \<Longrightarrow>
     sum_list (map crs (h[a := v])) + crs (h ! a) = sum_list (map crs h) + crs v"
proof (induction h arbitrary: a)
  case Nil
  then show ?case by simp
next
  case (Cons x h)
  then show ?case by (cases a) auto
qed

lemma crs_written_le:
  assumes "distinct (map raw ss)" "\<forall>s \<in> set ss. raw s < length h"
  shows "crs (written h ss) \<le> sum_list (map crs h)"
proof -
  have "crs (written h ss) = sum_list (map (\<lambda>a. crs (h ! a)) (map raw ss))"
    by (simp add: written_def crs_concat comp_def)
  also have "\<dots> = (\<Sum>a \<in> set (map raw ss). crs (h ! a))"
    using assms(1) by (rule sum_list_distinct_conv_sum_set)
  also have "\<dots> \<le> (\<Sum>a \<in> {0 ..< length h}. crs (h ! a))"
    using assms(2) by (intro sum_mono2) auto
  also have "\<dots> = sum_list (map crs h)"
    by (simp add: sum_list_sum_nth)
  finally show ?thesis .
qed

lemma scan_section_crs:
  assumes "scan_section limit scanner lineno buf acc = Inr (scanner', lineno', buf', acc')"
  shows "crs buf' + crs acc' + kept_crs scanner' \<le> crs buf + crs acc + kept_crs scanner"
  using assms
proof (rule scan_section_invariant
    [where I = "\<lambda>sc b a. crs b + crs a + kept_crs sc \<le> crs buf + crs acc + kept_crs scanner"])
  show "crs buf + crs acc + kept_crs scanner \<le> crs buf + crs acc + kept_crs scanner" by simp
next
  fix sc tok sc1 b a
  assume "crs b + crs a + kept_crs sc \<le> crs buf + crs acc + kept_crs scanner"
    and "Scan sc = Token tok sc1"
  with Scan_kept_crs [of sc tok sc1]
  show "crs (b @ tok @ [LF]) + crs a + kept_crs sc1 \<le> crs buf + crs acc + kept_crs scanner \<and>
    crs [] + crs (a @ b @ tok @ [LF]) + kept_crs sc1 \<le> crs buf + crs acc + kept_crs scanner \<and>
    crs b + crs (a @ tok @ [LF]) + kept_crs sc1 \<le> crs buf + crs acc + kept_crs scanner"
    by simp
qed

lemma write_remaining_crs:
  assumes "write_remaining scanner acc = Inr acc'"
  shows "crs acc' \<le> crs acc + kept_crs scanner"
proof -
  from assms have "\<exists>scanner'. crs acc' + kept_crs scanner' \<le> crs acc + kept_crs scanner"
  proof (rule write_remaining_invariant
      [where I = "\<lambda>sc a. crs a + kept_crs sc \<le> crs acc + kept_crs scanner"])
    show "crs acc + kept_crs scanner \<le> crs acc + kept_crs scanner" by simp
  next
    fix sc tok sc1 a
    assume "crs a + kept_crs sc \<le> crs acc + kept_crs scanner" and "Scan sc = Token tok sc1"
    with Scan_kept_crs [of sc tok sc1]
    show "crs (a @ tok @ [LF]) + kept_crs sc1 \<le> crs acc + kept_crs scanner"
      by simp
  qed
  then show ?thesis by auto
qed

lemma range_sections_length:
  "range_sections cur rest scanner lineno h = Inr (scanner', h') \<Longrightarrow> length h' = length h"
proof (induction rest arbitrary: cur scanner lineno h)
  case Nil
  then show ?case by simp
next
  case (Cons nxt rest)
  from Cons.prems obtain sc1 l1 buf acc where
    scan: "scan_section (begin_line nxt - 1) scanner lineno [] (h ! raw cur) = Inr (sc1, l1, buf, acc)"
    by (auto split: sum.splits)
  let ?h1 = "h[raw cur := acc]"
  let ?h2 = "if buf \<noteq> [] then ?h1[raw nxt := ?h1 ! raw nxt @ buf] else ?h1"
  from Cons.prems scan have "range_sections nxt rest sc1 l1 ?h2 = Inr (scanner', h')"
    by (simp add: Let_def)
  from Cons.IH [OF this] show ?case by simp
qed

lemma range_sections_crs:
  assumes "range_sections cur rest scanner lineno h = Inr (scanner', h')"
    and "raw cur < length h" "\<forall>s \<in> set rest. raw s < length h"
  shows "sum_list (map crs h') + kept_crs scanner' \<le> sum_list (map crs h) + kept_crs scanner"
  using assms
proof (induction rest arbitrary: cur scanner lineno h)
  case Nil
  then show ?case by simp
next
  case (Cons nxt rest)
  from Cons.prems(1) obtain sc1 l1 buf acc where
    scan: "scan_section (begin_line nxt - 1) scanner lineno [] (h ! raw cur) = Inr (sc1, l1, buf, acc)"
    by (auto split: sum.splits)
  let ?h1 = "h[raw cur := acc]"
  let ?h2 = "if buf \<noteq> [] then ?h1[raw nxt := ?h1 ! raw nxt @ buf] else ?h1"
  from Cons.prems(1) scan have rest: "range_sections nxt rest sc1 l1 ?h2 = Inr (scanner', h')"
    by (simp add: Let_def)
  from scan_section_crs [OF scan]
  have 1: "crs buf + crs acc + kept_crs sc1 \<le> crs (h ! raw cur) + kept_crs scanner" by simp
  from total_crs_update [OF Cons.prems(2), of acc]
  have 2: "sum_list (map crs ?h1) + crs (h ! raw cur) = sum_list (map crs h) + crs acc" .
  from Cons.prems(3) have nxt: "raw nxt < length ?h1" by simp
  from total_crs_update [OF nxt, of "?h1 ! raw nxt @ buf"]
  have 3: "sum_list (map crs ?h2) = sum_list (map crs ?h1) + crs buf"
    by (cases "buf = []") simp_all
  from Cons.prems(3) have valid: "raw nxt < length ?h2" "\<forall>s \<in> set rest. raw s < length ?h2"
    by simp_all
  from Cons.IH [OF rest valid]
  have "sum_list (map crs h') + kept_crs scanner' \<le> sum_list (map crs ?h2) + kept_crs sc1" .
  with 1 2 3 show ?case by linarith
qed

lemma assignTextToSections_crs:
  assumes "assignTextToSections data ss h = Inr h'" and "\<forall>s \<in> set ss. raw s < length h"
  shows "sum_list (map crs h') \<le> sum_list (map crs h) + kept_crs data"
proof -
  from assms(1) have ne: "ss \<noteq> []"
    by (auto simp: assignTextToSections_def)
  obtain ss0 h0 where wh: "with_header ss h = (ss0, h0)"
    by (cases "with_header ss h")
  have 0: "ss0 \<noteq> []" "sum_list (map crs h0) = sum_list (map crs h)"
    "\<forall>s \<in> set ss0. raw s < length h0"
  proof -
    show "ss0 \<noteq> []" using wh ne by (auto simp: with_header_def NewBuffer_def split: if_splits)
    show "sum_list (map crs h0) = sum_list (map crs h)"
      using wh by (auto simp: with_header_def NewBuffer_def split: if_splits)
    show "\<forall>s \<in> set ss0. raw s < length h0"
      using wh assms(2) by (auto simp: with_header_def NewBuffer_def less_Suc_eq split: if_splits)
  qed
  from assms(1) ne wh obtain sc1 h1 acc where
    loop: "range_sections (hd ss0) (tl ss0) data 0 h0 = Inr (sc1, h1)" and
    last: "write_remaining sc1 (h1 ! raw (last ss0)) = Inr acc" and
    h': "h' = h1[raw (last ss0) := acc]"
    by (auto simp: assignTextToSections_def split: sum.splits)
  from 0 have valid: "raw (hd ss0) < length h0" "\<forall>s \<in> set (tl ss0). raw s < length h0"
    by (auto dest: list.set_sel(2))
  from range_sections_crs [OF loop valid]
  have 1: "sum_list (map crs h1) + kept_crs sc1 \<le> sum_list (map crs h0) + kept_crs data" .
  from range_sections_length [OF loop] have len: "length h1 = length h0" .
  with 0 have "raw (last ss0) < length h1" by simp
  from total_crs_update [OF this, of acc] h'
  have 2: "sum_list (map crs h') + crs (h1 ! raw (last ss0)) = sum_list (map crs h1) + crs acc"
    by simp
  from write_remaining_crs [OF last]
  have 3: "crs acc \<le> crs (h1 ! raw (last ss0)) + kept_crs sc1" .
  from 0(2) 1 2 3 show ?thesis by linarith
qed

subsection \<open>Every token is written once, followed by one line feed\<close>

lemma Scan_no_LF: "Scan scanner = Token tok scanner' \<Longrightarrow> LF \<notin> set tok"
proof -
  assume "Scan scanner = Token tok scanner'"
  then have tok: "tok = dropCR (takeWhile (\<lambda>c. c \<noteq> LF) scanner)"
    by (auto simp: Scan_def Let_def split: if_splits)
  have "LF \<notin> set (takeWhile (\<lambda>c. c \<noteq> LF) scanner)"
    by (auto dest: set_takeWhileD)
  moreover have "set (dropCR l) \<subseteq> set l" for l
    by (auto simp: dropCR_def dest: in_set_butlastD)
  ultimately show ?thesis unfolding tok by blast
qed

lemma tokens_no_LF: "\<forall>tok \<in> set (tokens scanner). LF \<notin> set tok"
proof (induction scanner rule: tokens.induct)
  case (1 scanner)
  show ?case
  proof (cases "Scan scanner")
    case (Token tok scanner')
    with "1.IH" [OF Token] Scan_no_LF [OF Token] show ?thesis
      by (simp add: tokens.simps [of scanner])
  qed (simp_all add: tokens.simps [of scanner])
qed

lemma tokens_Token: "Scan scanner = Token tok scanner' \<Longrightarrow> tokens scanner = tok # tokens scanner'"
  by (simp add: tokens.simps [of scanner])

lemma tokens_EOF: "Scan scanner = EOF \<Longrightarrow> tokens scanner = []"
  by (simp add: tokens.simps [of scanner])

lemma Scan_last_line:
  assumes "scannable l" "l \<noteq> []"
  shows "Scan l = Token (dropCR l) []"
proof -
  from assms have tw: "takeWhile (\<lambda>c. c \<noteq> LF) l = l"
    by (auto simp: scannable_def)
  from assms have "\<not> MaxScanTokenSize \<le> int (length l)"
    by (simp add: scannable_def)
  with assms show ?thesis
    by (simp add: Scan_def tw)
qed

lemma tokens_unterminated:
  assumes "\<forall>l \<in> set ls. scannable l" "scannable l0"
  shows "tokens (terminated ls @ l0) = map dropCR ls @ (if l0 = [] then [] else [dropCR l0])"
  using assms(1)
proof (induction ls)
  case Nil
  show ?case
  proof (cases "l0 = []")
    case True
    then show ?thesis by (simp add: tokens_EOF)
  next
    case False
    with Scan_last_line [OF assms(2)] show ?thesis
      by (simp add: tokens_Token tokens_EOF)
  qed
next
  case (Cons l ls)
  then have "Scan (terminated (l # ls) @ l0) = Token (dropCR l) (terminated ls @ l0)"
    by (simp add: Scan_line)
  from tokens_Token [OF this] Cons show ?case by simp
qed

lemma tokens_terminated:
  "\<forall>l \<in> set ls. scannable l \<Longrightarrow> tokens (terminated ls) = map dropCR ls"
  using tokens_unterminated [of ls "[]"] by (simp add: scannable_def MaxScanTokenSize_def)

lemma terminated_Nil_iff [simp]: "terminated ts = [] \<longleftrightarrow> ts = []"
  by (cases ts) simp_all

lemma mset_concat_update:
  "i < length xss \<Longrightarrow>
     mset (concat (xss[i := x])) + mset (xss ! i) = mset (concat xss) + mset x"
proof (induction xss arbitrary: i)
  case Nil
  then show ?case by simp
next
  case (Cons xs xss)
  then show ?case by (cases i) (auto simp: ac_simps)
qed

lemma scan_section_tokens:
  assumes "scan_section limit scanner lineno (terminated tb) (terminated ta) =
      Inr (scanner', lineno', buf', acc')"
  shows "\<exists>tb' ta'. buf' = terminated tb' \<and> acc' = terminated ta' \<and>
    mset tb' + mset ta' + mset (tokens scanner') = mset tb + mset ta + mset (tokens scanner)"
  using assms
proof (rule scan_section_invariant
    [where I = "\<lambda>sc b a. \<exists>tb' ta'. b = terminated tb' \<and> a = terminated ta' \<and>
      mset tb' + mset ta' + mset (tokens sc) = mset tb + mset ta + mset (tokens scanner)"])
  show "\<exists>tb' ta'. terminated tb = terminated tb' \<and> terminated ta = terminated ta' \<and>
      mset tb' + mset ta' + mset (tokens scanner) = mset tb + mset ta + mset (tokens scanner)"
    by blast
next
  fix sc tok sc1 b a
  assume "\<exists>tb' ta'. b = terminated tb' \<and> a = terminated ta' \<and>
      mset tb' + mset ta' + mset (tokens sc) = mset tb + mset ta + mset (tokens scanner)"
    and scan: "Scan sc = Token tok sc1"
  then obtain tb' ta' where b: "b = terminated tb'" and a: "a = terminated ta'" and
    m: "mset tb' + mset ta' + mset (tokens sc) = mset tb + mset ta + mset (tokens scanner)"
    by blast
  from tokens_Token [OF scan] m
  have m': "mset tb' + mset ta' + mset (tokens sc1) + {#tok#} =
      mset tb + mset ta + mset (tokens scanner)"
    by simp
  have 1: "\<exists>tb'' ta''. b @ tok @ [LF] = terminated tb'' \<and> a = terminated ta'' \<and>
      mset tb'' + mset ta'' + mset (tokens sc1) = mset tb + mset ta + mset (tokens scanner)"
    using a b m' by (intro exI [of _ "tb' @ [tok]"] exI [of _ ta']) (simp add: ac_simps)
  have 2: "\<exists>tb'' ta''. [] = terminated tb'' \<and> a @ b @ tok @ [LF] = terminated ta'' \<and>
      mset tb'' + mset ta'' + mset (tokens sc1) = mset tb + mset ta + mset (tokens scanner)"
    using a b m' by (intro exI [of _ "[]"] exI [of _ "ta' @ tb' @ [tok]"]) (simp add: ac_simps)
  have 3: "\<exists>tb'' ta''. b = terminated tb'' \<and> a @ tok @ [LF] = terminated ta'' \<and>
      mset tb'' + mset ta'' + mset (tokens sc1) = mset tb + mset ta + mset (tokens scanner)"
    using a b m' by (intro exI [of _ tb'] exI [of _ "ta' @ [tok]"]) (simp add: ac_simps)
  from 1 2 3 show "(\<exists>tb'' ta''. b @ tok @ [LF] = terminated tb'' \<and> a = terminated ta'' \<and>
      mset tb'' + mset ta'' + mset (tokens sc1) = mset tb + mset ta + mset (tokens scanner)) \<and>
    (\<exists>tb'' ta''. [] = terminated tb'' \<and> a @ b @ tok @ [LF] = terminated ta'' \<and>
      mset tb'' + mset ta'' + mset (tokens sc1) = mset tb + mset ta + mset (tokens scanner)) \<and>
    (\<exists>tb'' ta''. b = terminated tb'' \<and> a @ tok @ [LF] = terminated ta'' \<and>
      mset tb'' + mset ta'' + mset (tokens sc1) = mset tb + mset ta + mset (tokens scanner))"
    by blast
qed

lemma write_remaining_tokens:
  "write_remaining scanner (terminated ta) = Inr acc' \<Longrightarrow>
     \<exists>ta'. acc' = terminated ta' \<and> mset ta' = mset ta + mset (tokens scanner)"
proof (induction scanner "terminated ta" arbitrary: ta rule: write_remaining.induct)
  case (1 scanner)
  show ?case
  proof (cases "Scan scanner")
    case EOF
    with "1.prems" show ?thesis
      by (auto simp: write_remaining.simps [of scanner] tokens_EOF)
  next
    case ErrTooLong
    with "1.prems" show ?thesis by (simp add: write_remaining.simps [of scanner])
  next
    case (Token tok sc1)
    with "1.prems" have "write_remaining sc1 (terminated (ta @ [tok])) = Inr acc'"
      by (simp add: write_remaining.simps [of scanner])
    from "1.hyps" [OF Token _ this] obtain ta' where
      "acc' = terminated ta'" "mset ta' = mset (ta @ [tok]) + mset (tokens sc1)"
      by auto
    with tokens_Token [OF Token] show ?thesis by auto
  qed
qed


lemma range_sections_tokens:
  assumes "range_sections cur rest scanner lineno (map terminated tss) = Inr (scanner', h')"
    and "raw cur < length tss" "\<forall>s \<in> set rest. raw s < length tss"
  shows "\<exists>tss'. h' = map terminated tss' \<and> length tss' = length tss \<and>
    mset (concat tss') + mset (tokens scanner') = mset (concat tss) + mset (tokens scanner)"
  using assms
proof (induction rest arbitrary: cur scanner lineno tss)
  case Nil
  then show ?case by auto
next
  case (Cons nxt rest)
  let ?h = "map terminated tss"
  from Cons.prems(2) have cur: "?h ! raw cur = terminated (tss ! raw cur)" by simp
  from Cons.prems(1) obtain sc1 l1 buf acc where
    scan: "scan_section (begin_line nxt - 1) scanner lineno [] (?h ! raw cur) = Inr (sc1, l1, buf, acc)"
    by (auto split: sum.splits)
  then have "scan_section (begin_line nxt - 1) scanner lineno (terminated []) (terminated (tss ! raw cur)) =
      Inr (sc1, l1, buf, acc)"
    by (simp only: cur terminated_simps)
  from scan_section_tokens [OF this] obtain tb ta where
    buf: "buf = terminated tb" and acc: "acc = terminated ta" and
    m0: "mset tb + mset ta + mset (tokens sc1) = mset (tss ! raw cur) + mset (tokens scanner)"
    by auto
  define tss1 where "tss1 = tss[raw cur := ta]"
  define tss2 where "tss2 = tss1[raw nxt := tss1 ! raw nxt @ tb]"
  let ?h1 = "?h[raw cur := acc]"
  let ?h2 = "if buf \<noteq> [] then ?h1[raw nxt := ?h1 ! raw nxt @ buf] else ?h1"
  from Cons.prems(1) scan have rest: "range_sections nxt rest sc1 l1 ?h2 = Inr (scanner', h')"
    by (simp add: Let_def)
  have h1: "?h1 = map terminated tss1"
    by (simp add: tss1_def acc map_update)
  from Cons.prems(3) have nxt: "raw nxt < length tss1" by (simp add: tss1_def)
  have h2: "?h2 = map terminated tss2"
  proof (cases "buf = []")
    case True
    with buf have "terminated tb = []" by simp
    then have "tb = []" by (simp only: terminated_Nil_iff)
    then have "tss2 = tss1" by (simp add: tss2_def)
    with True h1 show ?thesis by simp
  next
    case False
    have "?h1[raw nxt := ?h1 ! raw nxt @ buf] = map terminated tss2"
      unfolding h1 using nxt by (simp add: tss2_def buf map_update)
    with False show ?thesis by simp
  qed
  have len: "length tss2 = length tss" by (simp add: tss2_def tss1_def)
  from Cons.prems(3) len have valid: "raw nxt < length tss2" "\<forall>s \<in> set rest. raw s < length tss2"
    by simp_all
  from rest have "range_sections nxt rest sc1 l1 (map terminated tss2) = Inr (scanner', h')"
    by (simp only: h2)
  from Cons.IH [OF this valid] obtain tss' where
    tss': "h' = map terminated tss'" "length tss' = length tss2" and
    m3: "mset (concat tss') + mset (tokens scanner') = mset (concat tss2) + mset (tokens sc1)"
    by blast
  from mset_concat_update [OF Cons.prems(2), of ta]
  have m1: "mset (concat tss1) + mset (tss ! raw cur) = mset (concat tss) + mset ta"
    by (simp add: tss1_def)
  from mset_concat_update [OF nxt, of "tss1 ! raw nxt @ tb"]
  have m2: "mset (concat tss2) = mset (concat tss1) + mset tb"
    by (simp add: tss2_def)
  have "mset (concat tss') + mset (tokens scanner') + mset (tss ! raw cur) =
      mset (concat tss1) + mset (tss ! raw cur) + (mset tb + mset (tokens sc1))"
    by (simp add: m3 m2)
  also have "\<dots> = mset (concat tss) + (mset tb + mset ta + mset (tokens sc1))"
    by (simp add: m1)
  also have "\<dots> = mset (concat tss) + mset (tokens scanner) + mset (tss ! raw cur)"
    by (simp add: m0)
  finally have "mset (concat tss') + mset (tokens scanner') =
      mset (concat tss) + mset (tokens scanner)"
    by simp
  with tss' len show ?case by auto
qed

lemma assignTextToSections_tokens:
  assumes "assignTextToSections data ss (map terminated tss) = Inr h'"
    and "\<forall>s \<in> set ss. raw s < length tss"
  shows "\<exists>tss'. h' = map terminated tss' \<and>
    mset (concat tss') = mset (concat tss) + mset (tokens data)"
proof -
  from assms(1) have ne: "ss \<noteq> []"
    by (auto simp: assignTextToSections_def)
  obtain ss0 h0 where wh: "with_header ss (map terminated tss) = (ss0, h0)"
    by (cases "with_header ss (map terminated tss)")
  define tss0 where "tss0 = (if begin_line (hd ss) > 0 then tss @ [[]] else tss)"
  have 0: "ss0 \<noteq> []" "h0 = map terminated tss0" "\<forall>s \<in> set ss0. raw s < length tss0"
    "mset (concat tss0) = mset (concat tss)"
  proof -
    show "ss0 \<noteq> []" using wh ne by (auto simp: with_header_def NewBuffer_def split: if_splits)
    show "h0 = map terminated tss0"
      using wh by (auto simp: with_header_def NewBuffer_def tss0_def split: if_splits)
    show "\<forall>s \<in> set ss0. raw s < length tss0"
      using wh assms(2)
      by (auto simp: with_header_def NewBuffer_def tss0_def less_Suc_eq split: if_splits)
    show "mset (concat tss0) = mset (concat tss)"
      by (simp add: tss0_def)
  qed
  from assms(1) ne wh obtain sc1 h1 acc where
    loop: "range_sections (hd ss0) (tl ss0) data 0 h0 = Inr (sc1, h1)" and
    rest: "write_remaining sc1 (h1 ! raw (last ss0)) = Inr acc" and
    h': "h' = h1[raw (last ss0) := acc]"
    by (auto simp: assignTextToSections_def split: sum.splits)
  from 0 have valid: "raw (hd ss0) < length tss0" "\<forall>s \<in> set (tl ss0). raw s < length tss0"
    by (auto dest: list.set_sel(2))
  from loop have "range_sections (hd ss0) (tl ss0) data 0 (map terminated tss0) = Inr (sc1, h1)"
    by (simp only: 0(2))
  from range_sections_tokens [OF this valid] obtain tss1 where
    h1: "h1 = map terminated tss1" and len: "length tss1 = length tss0" and
    m1: "mset (concat tss1) + mset (tokens sc1) = mset (concat tss0) + mset (tokens data)"
    by blast
  from 0 len have r: "raw (last ss0) < length tss1" by simp
  with rest h1 have "write_remaining sc1 (terminated (tss1 ! raw (last ss0))) = Inr acc"
    by simp
  from write_remaining_tokens [OF this] obtain ta where
    acc: "acc = terminated ta" and
    m2: "mset ta = mset (tss1 ! raw (last ss0)) + mset (tokens sc1)"
    by blast
  have "h' = map terminated (tss1[raw (last ss0) := ta])"
    by (simp add: h' h1 acc map_update)
  moreover have "mset (concat (tss1[raw (last ss0) := ta])) =
      mset (concat tss) + mset (tokens data)"
    using mset_concat_update [OF r, of ta] m1 m2 0(4) by simp
  ultimately show ?thesis by blast
qed

lemma length_terminated: "length (terminated ts) = sum_list (map (\<lambda>tok. length tok + 1) ts)"
  by (induction ts) simp_all

lemma count_terminated:
  "\<forall>tok \<in> set ts. LF \<notin> set tok \<Longrightarrow> count_list (terminated ts) LF = length ts"
  by (induction ts) simp_all

lemma terminated_concat: "concat (map terminated tss) = terminated (concat tss)"
  by (induction tss) simp_all

lemma mset_concat_nths:
  assumes "distinct is" "\<forall>i \<in> set is. i < length xss"
  shows "mset (concat (map ((!) xss) is)) \<subseteq># mset (concat xss)"
  using assms
proof (induction "is" arbitrary: xss)
  case Nil
  then show ?case by simp
next
  case (Cons i "is")
  let ?xss = "xss[i := []]"
  from Cons.prems have i: "i < length xss" "i \<notin> set is" by simp_all
  have same: "map ((!) ?xss) is = map ((!) xss) is"
  proof (rule map_cong [OF refl])
    fix x assume "x \<in> set is"
    with i(2) have "i \<noteq> x" by blast
    then show "?xss ! x = xss ! x" by (rule nth_list_update_neq)
  qed
  from Cons.prems have "distinct is" "\<forall>i \<in> set is. i < length ?xss" by simp_all
  from Cons.IH [OF this] same
  have "mset (concat (map ((!) xss) is)) \<subseteq># mset (concat ?xss)" by simp
  moreover from mset_concat_update [OF i(1), of "[]"]
  have "mset (concat ?xss) + mset (xss ! i) = mset (concat xss)" by simp
  ultimately have "mset (xss ! i) + mset (concat (map ((!) xss) is)) \<subseteq># mset (concat xss)"
    by (metis add.commute subset_mset.add_left_mono)
  then show ?case by simp
qed

text \<open>
  Claim C9. After the extraction and a reconstruction that ends without error, every
  buffer of the store is a sequence of tokens of the scanner, each followed by exactly
  one line feed, and the tokens of all buffers together are the tokens of the input, each
  as often as the scanner returned it; no token contains a line feed. So the store holds
  one byte more per token than the tokens have, and as many line feeds as there are
  tokens. The text that \<^verbatim>\<open>main\<close> would write when no migration matches is such a sequence
  of tokens of the input as well; it is empty or ends with a line feed. Hence it differs
  from an input that is not empty and does not end with a line feed, and it differs from
  an input in which a carriage return is directly followed by a line feed: the scanner
  drops such a carriage return and the loops add none. On an input made of lines below
  the size limit of the scanner, the tokens are the lines without their line feed and
  without a carriage return before it; a last line without a line feed is a token when it
  is not empty.
\<close>

theorem line_terminator_normalization:
  assumes split: "splitToSections root [] = Inr (ss, h)"
    and assign: "assignTextToSections data ss h = Inr h'"
  shows "closed (written h' ss) \<and>
    (data \<noteq> [] \<and> last data \<noteq> LF \<longrightarrow> written h' ss \<noteq> data) \<and>
    ((\<exists>pre post. data = pre @ CR # LF # post) \<longrightarrow> written h' ss \<noteq> data) \<and>
    (\<exists>tss. h' = map terminated tss \<and> mset (concat tss) = mset (tokens data)) \<and>
    (\<exists>ws. written h' ss = terminated ws \<and> mset ws \<subseteq># mset (tokens data)) \<and>
    (\<forall>tok \<in> set (tokens data). LF \<notin> set tok) \<and>
    sum_list (map length h') = sum_list (map (\<lambda>tok. length tok + 1) (tokens data)) \<and>
    count_list (concat h') LF = length (tokens data) \<and>
    (\<forall>ls l0. data = terminated ls @ l0 \<and> (\<forall>l \<in> set ls. scannable l) \<and> scannable l0 \<longrightarrow>
       tokens data = map dropCR ls @ (if l0 = [] then [] else [dropCR l0]))"
proof -
  from splitToSections_alloc [OF split] have
    distinct: "distinct (map raw ss)" and valid: "\<forall>s \<in> set ss. raw s < length h" and
    empty: "\<exists>n. h = replicate n []"
    by auto
  from empty have all_closed: "\<forall>x \<in> set h. closed x" and no_crs: "sum_list (map crs h) = 0"
    by auto
  from assignTextToSections_closed [OF assign all_closed valid]
  have closed': "\<forall>x \<in> set h'. closed x" and len: "length h \<le> length h'" by simp_all
  from valid len have valid': "\<forall>s \<in> set ss. raw s < length h'" by auto
  with closed' have "\<forall>x \<in> set (map (\<lambda>s. h' ! raw s) ss). closed x" by simp
  then have closed_out: "closed (written h' ss)"
    unfolding written_def by (rule closed_concat)
  have unterminated: "written h' ss \<noteq> data" if "data \<noteq> [] \<and> last data \<noteq> LF"
    using that closed_out by (auto simp: closed_def)
  have crlf: "written h' ss \<noteq> data" if "\<exists>pre post. data = pre @ CR # LF # post"
  proof -
    from that obtain pre post where data: "data = pre @ CR # LF # post" by blast
    have "crs (written h' ss) \<le> sum_list (map crs h')"
      using distinct valid' by (rule crs_written_le)
    also have "\<dots> \<le> sum_list (map crs h) + kept_crs data"
      using assign valid by (rule assignTextToSections_crs)
    also have "\<dots> = kept_crs data"
      by (simp only: no_crs add_0)
    also have "\<dots> < crs data"
      unfolding data by (rule kept_crs_less)
    finally show ?thesis by auto
  qed
  from empty obtain n where h: "h = map terminated (replicate n [])"
    by auto
  from valid have valid0: "\<forall>s \<in> set ss. raw s < length (replicate n ([] :: string list))"
    by (simp add: h)
  from assign have "assignTextToSections data ss (map terminated (replicate n [])) = Inr h'"
    by (simp only: h)
  from assignTextToSections_tokens [OF this valid0] obtain tss where
    h': "h' = map terminated tss" and
    m: "mset (concat tss) = mset (tokens data)"
    by auto
  have store: "\<exists>tss. h' = map terminated tss \<and> mset (concat tss) = mset (tokens data)"
    using h' m by blast
  have no_LF: "\<forall>tok \<in> set (tokens data). LF \<notin> set tok"
    by (rule tokens_no_LF)
  have out: "\<exists>ws. written h' ss = terminated ws \<and> mset ws \<subseteq># mset (tokens data)"
  proof -
    let ?ws = "concat (map ((!) tss) (map raw ss))"
    from valid' have v: "\<forall>i \<in> set (map raw ss). i < length tss" by (simp add: h')
    then have "map (\<lambda>s. h' ! raw s) ss = map terminated (map ((!) tss) (map raw ss))"
      by (simp add: h')
    then have "written h' ss = terminated ?ws"
      by (simp only: written_def terminated_concat)
    moreover from mset_concat_nths [OF distinct v] have "mset ?ws \<subseteq># mset (tokens data)"
      by (simp only: m)
    ultimately show ?thesis by blast
  qed
  have all: "concat h' = terminated (concat tss)"
    by (simp only: h' terminated_concat)
  have size: "sum_list (map length h') = sum_list (map (\<lambda>tok. length tok + 1) (tokens data))"
  proof -
    have "mset (map (\<lambda>tok. length tok + 1) (concat tss)) =
        mset (map (\<lambda>tok. length tok + 1) (tokens data))"
      by (simp only: mset_map m)
    then have "sum_mset (mset (map (\<lambda>tok. length tok + 1) (concat tss))) =
        sum_mset (mset (map (\<lambda>tok. length tok + 1) (tokens data)))"
      by (rule arg_cong)
    then have "sum_list (map (\<lambda>tok. length tok + 1) (concat tss)) =
        sum_list (map (\<lambda>tok. length tok + 1) (tokens data))"
      by (simp only: sum_mset_sum_list)
    moreover have "sum_list (map length h') = length (concat h')"
      by (simp only: length_concat)
    ultimately show ?thesis by (simp only: all length_terminated)
  qed
  have feeds: "count_list (concat h') LF = length (tokens data)"
  proof -
    from m have "set (concat tss) = set (tokens data)" by (rule mset_eq_setD)
    with no_LF have "\<forall>tok \<in> set (concat tss). LF \<notin> set tok" by simp
    then have "count_list (terminated (concat tss)) LF = length (concat tss)"
      by (rule count_terminated)
    moreover from m have "length (concat tss) = length (tokens data)" by (rule mset_eq_length)
    ultimately show ?thesis by (simp only: all)
  qed
  have lines: "\<forall>ls l0. data = terminated ls @ l0 \<and> (\<forall>l \<in> set ls. scannable l) \<and> scannable l0 \<longrightarrow>
       tokens data = map dropCR ls @ (if l0 = [] then [] else [dropCR l0])"
    using tokens_unterminated by blast
  from closed_out unterminated crlf store out no_LF size feeds lines show ?thesis by blast
qed


theorem line_terminator_normalization_witness:
  "splitToSections dos_root [] = Inr (dos_sections, [[], []]) \<and>
   assignTextToSections dos_conf dos_sections [[], []] =
     Inr (map terminated
       [[''# global'', ''[agent]'', ''  debug = true'', ''# end of agent'', []],
        [''# cpu'', ''[[inputs.cpu]]''],
        []]) \<and>
   dos_conf =
     terminated (map (\<lambda>l. l @ [CR])
       [''# global'', ''[agent]'', ''  debug = true'', ''# end of agent'', [], ''# cpu'']) @
     ''[[inputs.cpu]]'' \<and>
   tokens dos_conf =
     [''# global'', ''[agent]'', ''  debug = true'', ''# end of agent'', [], ''# cpu'',
      ''[[inputs.cpu]]''] \<and>
   written
     (map terminated
       [[''# global'', ''[agent]'', ''  debug = true'', ''# end of agent'', []],
        [''# cpu'', ''[[inputs.cpu]]''],
        []])
     dos_sections =
     terminated
       [''# global'', ''[agent]'', ''  debug = true'', ''# end of agent'', [], ''# cpu'',
        ''[[inputs.cpu]]''] \<and>
   written
     (map terminated
       [[''# global'', ''[agent]'', ''  debug = true'', ''# end of agent'', []],
        [''# cpu'', ''[[inputs.cpu]]''],
        []])
     dos_sections \<noteq> dos_conf \<and>
   count_list
     (concat (map terminated
       [[''# global'', ''[agent]'', ''  debug = true'', ''# end of agent'', []],
        [''# cpu'', ''[[inputs.cpu]]''],
        []])) LF = 7 \<and>
   sum_list (map length (map terminated
       [[''# global'', ''[agent]'', ''  debug = true'', ''# end of agent'', []],
        [''# cpu'', ''[[inputs.cpu]]''],
        []])) = 69"
proof -
  let ?h' = "map terminated
       [[''# global'', ''[agent]'', ''  debug = true'', ''# end of agent'', []],
        [''# cpu'', ''[[inputs.cpu]]''],
        []]"
  let ?toks = "[''# global'', ''[agent]'', ''  debug = true'', ''# end of agent'', [], ''# cpu'',
      ''[[inputs.cpu]]'']"
  have split: "splitToSections dos_root [] = Inr (dos_sections, [[], []])"
    by code_simp
  have assign: "assignTextToSections dos_conf dos_sections [[], []] = Inr ?h'"
    by code_simp
  have conf: "dos_conf =
     terminated (map (\<lambda>l. l @ [CR])
       [''# global'', ''[agent]'', ''  debug = true'', ''# end of agent'', [], ''# cpu'']) @
     ''[[inputs.cpu]]''"
    by (simp add: dos_conf_def)
  have toks: "tokens dos_conf = ?toks"
    by code_simp
  have out: "written ?h' dos_sections = terminated ?toks"
    by code_simp
  have unterminated: "dos_conf \<noteq> [] \<and> last dos_conf \<noteq> LF"
    by (simp add: dos_conf_def)
  from line_terminator_normalization [OF split assign] unterminated
  have differs: "written ?h' dos_sections \<noteq> dos_conf"
    and feeds: "count_list (concat ?h') LF = length (tokens dos_conf)"
    and size: "sum_list (map length ?h') = sum_list (map (\<lambda>tok. length tok + 1) (tokens dos_conf))"
    by blast+
  from feeds have feeds': "count_list (concat ?h') LF = 7"
    by (simp only: toks) simp
  from size have size': "sum_list (map length ?h') = 69"
    by (simp only: toks) simp
  from split assign conf toks out differs feeds' size' show ?thesis by blast
qed

subsection \<open>The reconstruction on settled lines\<close>

lemma settled_adjacent:
  assumes "\<forall>j. Suc j < length xs \<and> is_comment (xs ! j) \<longrightarrow>
      is_comment (xs ! Suc j) \<or> is_blank (xs ! Suc j)"
    and "pending \<longrightarrow> xs = [] \<or> is_comment (hd xs) \<or> is_blank (hd xs)"
  shows "settled pending xs"
  using assms
proof (induction xs arbitrary: pending)
  case Nil
  then show ?case by simp
next
  case (Cons l xs)
  have adj: "\<forall>j. Suc j < length xs \<and> is_comment (xs ! j) \<longrightarrow>
      is_comment (xs ! Suc j) \<or> is_blank (xs ! Suc j)"
  proof (intro allI impI)
    fix j assume "Suc j < length xs \<and> is_comment (xs ! j)"
    then have "Suc (Suc j) < length (l # xs) \<and> is_comment ((l # xs) ! Suc j)" by simp
    with Cons.prems(1) have "is_comment ((l # xs) ! Suc (Suc j)) \<or> is_blank ((l # xs) ! Suc (Suc j))"
      by blast
    then show "is_comment (xs ! Suc j) \<or> is_blank (xs ! Suc j)" by simp
  qed
  show ?case
  proof (cases "is_comment l")
    case True
    have "True \<longrightarrow> xs = [] \<or> is_comment (hd xs) \<or> is_blank (hd xs)"
    proof (cases xs)
      case Nil
      then show ?thesis by simp
    next
      case (Cons x xs')
      with True Cons.prems(1) [rule_format, of 0] show ?thesis by simp
    qed
    from Cons.IH [OF adj this] True show ?thesis by simp
  next
    case False
    with Cons.prems(2) have "pending \<longrightarrow> is_blank l" by simp
    moreover have "settled False xs"
      by (rule Cons.IH [OF adj]) simp
    ultimately show ?thesis using False by simp
  qed
qed

lemma range_split:
  fixes ls :: "'a list" and n k :: nat
  defines "xs \<equiv> take n (drop k ls)"
  shows "drop k ls = xs @ drop (k + length xs) ls"
    and "length xs \<le> n"
    and "length xs < n \<Longrightarrow> drop (k + length xs) ls = []"
    and "\<forall>j < length xs. xs ! j = ls ! (k + j) \<and> k + j < length ls"
proof -
  have e: "drop (k + length xs) ls = drop n (drop k ls)"
    unfolding xs_def by (cases "n \<le> length (drop k ls)") (simp_all add: min_def add.commute)
  have "xs @ drop n (drop k ls) = drop k ls"
    unfolding xs_def by (rule append_take_drop_id)
  then show "drop k ls = xs @ drop (k + length xs) ls"
    by (simp only: e)
  show "length xs \<le> n"
    unfolding xs_def by simp
  show "drop (k + length xs) ls = []" if "length xs < n"
    using that unfolding xs_def by (simp add: min_def split: if_splits)
  show "\<forall>j < length xs. xs ! j = ls ! (k + j) \<and> k + j < length ls"
    unfolding xs_def by auto
qed

lemma written_simps [simp]:
  "written h [] = []"
  "written h (s # ss) = h ! raw s @ written h ss"
  "written h (ss @ ts) = written h ss @ written h ts"
  by (simp_all add: written_def)

lemma written_frame:
  "\<forall>s \<in> set ss. h' ! raw s = h ! raw s \<Longrightarrow> written h' ss = written h ss"
  by (induction ss) simp_all

lemma written_update_last:
  assumes "distinct (map raw ss)" "ss \<noteq> []" "raw (last ss) < length h"
  shows "written (h[raw (last ss) := h ! raw (last ss) @ x]) ss = written h ss @ x"
proof -
  let ?h' = "h[raw (last ss) := h ! raw (last ss) @ x]"
  from assms(2) have ss: "ss = butlast ss @ [last ss]" by simp
  with assms(1) have "distinct (map raw (butlast ss @ [last ss]))" by simp
  moreover have "distinct (map raw (xs @ [y])) \<Longrightarrow> \<forall>s \<in> set xs. raw y \<noteq> raw s"
    for xs :: "section_t list" and y
    by (simp add: image_iff)
  ultimately have "\<forall>s \<in> set (butlast ss). raw (last ss) \<noteq> raw s" by blast
  then have "\<forall>s \<in> set (butlast ss). ?h' ! raw s = h ! raw s" by simp
  then have "written ?h' (butlast ss) = written h (butlast ss)" by (rule written_frame)
  moreover from assms(3) have "?h' ! raw (last ss) = h ! raw (last ss) @ x" by simp
  ultimately have "written ?h' (butlast ss @ [last ss]) = written h (butlast ss @ [last ss]) @ x"
    by simp
  with ss show ?thesis by simp
qed


lemma range_sections_round_trip:
  fixes ls :: "string list"
  assumes lines: "\<forall>l \<in> set ls. scannable l \<and> dropCR l = l"
    and sorted: "sorted (map begin_line rest)"
    and distinct: "distinct (map raw (cur # rest))"
    and valid: "\<forall>s \<in> set (cur # rest). raw s < length h"
    and empty: "\<forall>s \<in> set rest. h ! raw s = []"
    and comments: "\<forall>i. k \<le> i \<and> Suc i < length ls \<and> is_comment (ls ! i) \<and>
        \<not> is_comment (ls ! Suc i) \<and> \<not> is_blank (ls ! Suc i) \<longrightarrow>
        (\<exists>s \<in> set rest. begin_line s = int i + 2) \<or> (\<forall>s \<in> set rest. begin_line s < int i + 2)"
  shows "\<exists>k' h'.
    range_sections cur rest (terminated (drop k ls)) (int k) h = Inr (terminated (drop k' ls), h') \<and>
    length h' = length h \<and>
    written h' (cur # rest) @ terminated (drop k' ls) = h ! raw cur @ terminated (drop k ls) \<and>
    (\<forall>a. a \<notin> raw ` set (cur # rest) \<longrightarrow> h' ! a = h ! a) \<and>
    (rest \<noteq> [] \<and>
     (\<forall>l \<in> set (take (nat (begin_line (hd rest) - 1 - int k)) (drop k ls)). is_comment l) \<longrightarrow>
       h' ! raw cur = h ! raw cur)"
  using sorted distinct valid empty comments
proof (induction rest arbitrary: cur k h)
  case Nil
  have "range_sections cur [] (terminated (drop k ls)) (int k) h = Inr (terminated (drop k ls), h)"
    by simp
  then show ?case by auto
next
  case (Cons nxt rest)
  let ?limit = "begin_line nxt - 1"
  define xs where "xs = take (nat (?limit - int k)) (drop k ls)"
  define k1 where "k1 = k + length xs"
  note split = range_split [where k = k and ls = ls and n = "nat (?limit - int k)",
      folded xs_def, folded k1_def]
  have dropCR_xs: "map dropCR xs = xs"
  proof (rule map_idI)
    fix l assume "l \<in> set xs"
    then have "l \<in> set ls" unfolding xs_def by (meson in_set_dropD in_set_takeD)
    with lines show "dropCR l = l" by simp
  qed
  obtain buf acc where fed: "fold feed_line xs ([], h ! raw cur) = (buf, acc)"
    by (cases "fold feed_line xs ([], h ! raw cur)")
  from lines have "\<forall>l \<in> set ls. scannable l" by simp
  from scan_section_range [OF this, of ?limit k "[]" "h ! raw cur"] fed dropCR_xs
  have scan: "scan_section ?limit (terminated (drop k ls)) (int k) [] (h ! raw cur) =
      Inr (terminated (drop k1 ls), int k1, buf, acc)"
    by (simp add: xs_def k1_def)
  \<comment> \<open>the begin of the next section is the least among the sections to come\<close>
  from Cons.prems(1) have least: "\<forall>s \<in> set (nxt # rest). begin_line nxt \<le> begin_line s"
    by auto
  \<comment> \<open>inside the range no line that is neither comment nor blank follows a comment\<close>
  have adjacent: "\<forall>j. Suc j < length xs \<and> is_comment (xs ! j) \<longrightarrow>
      is_comment (xs ! Suc j) \<or> is_blank (xs ! Suc j)"
  proof (intro allI impI, rule ccontr)
    fix j assume j: "Suc j < length xs \<and> is_comment (xs ! j)"
      and not: "\<not> (is_comment (xs ! Suc j) \<or> is_blank (xs ! Suc j))"
    from j have "j < length xs" "Suc j < length xs" by simp_all
    from split(4) [rule_format, OF this(1)] split(4) [rule_format, OF this(2)]
    have at: "xs ! j = ls ! (k + j)" "xs ! Suc j = ls ! Suc (k + j)"
      "Suc (k + j) < length ls"
      by simp_all
    from j split(2) have "Suc j < nat (?limit - int k)" by simp
    then have before: "int (k + j) + 2 < begin_line nxt" by linarith
    from Cons.prems(5) [rule_format, of "k + j"] j not at
    have "(\<exists>s \<in> set (nxt # rest). begin_line s = int (k + j) + 2) \<or>
      (\<forall>s \<in> set (nxt # rest). begin_line s < int (k + j) + 2)"
      by simp
    with least before show False by fastforce
  qed
  then have "settled (([]::string) \<noteq> []) xs"
    by (rule settled_adjacent) simp
  from fold_settled [OF this fed] have joined: "acc @ buf = h ! raw cur @ terminated xs"
    by simp
  \<comment> \<open>the store after the iteration\<close>
  let ?h1 = "h[raw cur := acc]"
  let ?h2 = "if buf \<noteq> [] then ?h1[raw nxt := ?h1 ! raw nxt @ buf] else ?h1"
  from Cons.prems(2) have neq: "raw cur \<noteq> raw nxt" by auto
  from Cons.prems(3) have cur_valid: "raw cur < length h" and nxt_valid: "raw nxt < length h"
    by simp_all
  from Cons.prems(4) have nxt_empty: "h ! raw nxt = []" by simp
  have h2_cur: "?h2 ! raw cur = acc"
    using neq cur_valid by simp
  have h2_nxt: "?h2 ! raw nxt = buf"
    using neq nxt_valid nxt_empty by simp
  have h2_other: "?h2 ! a = h ! a" if "a \<noteq> raw cur" "a \<noteq> raw nxt" for a
    using that by simp
  have h2_len: "length ?h2 = length h" by simp
  from scan have step: "range_sections cur (nxt # rest) (terminated (drop k ls)) (int k) h =
      range_sections nxt rest (terminated (drop k1 ls)) (int k1) ?h2"
    by (simp add: Let_def)
  \<comment> \<open>the hypotheses for the sections to come\<close>
  from Cons.prems(1) have sorted': "sorted (map begin_line rest)" by simp
  from Cons.prems(2) have distinct': "distinct (map raw (nxt # rest))" by simp
  from Cons.prems(3) h2_len have valid': "\<forall>s \<in> set (nxt # rest). raw s < length ?h2" by simp
  have empty': "\<forall>s \<in> set rest. ?h2 ! raw s = []"
  proof
    fix s assume s: "s \<in> set rest"
    with Cons.prems(2) have "raw s \<noteq> raw cur" "raw s \<noteq> raw nxt"
      by (auto simp: image_iff)
    from h2_other [OF this] s Cons.prems(4) show "?h2 ! raw s = []" by simp
  qed
  have comments': "\<forall>i. k1 \<le> i \<and> Suc i < length ls \<and> is_comment (ls ! i) \<and>
        \<not> is_comment (ls ! Suc i) \<and> \<not> is_blank (ls ! Suc i) \<longrightarrow>
        (\<exists>s \<in> set rest. begin_line s = int i + 2) \<or> (\<forall>s \<in> set rest. begin_line s < int i + 2)"
  proof (intro allI impI)
    fix i assume i: "k1 \<le> i \<and> Suc i < length ls \<and> is_comment (ls ! i) \<and>
        \<not> is_comment (ls ! Suc i) \<and> \<not> is_blank (ls ! Suc i)"
    then have "k \<le> i" unfolding k1_def by simp
    with i Cons.prems(5) have either:
      "(\<exists>s \<in> set (nxt # rest). begin_line s = int i + 2) \<or>
       (\<forall>s \<in> set (nxt # rest). begin_line s < int i + 2)"
      by blast
    have "\<not> length xs < nat (?limit - int k)"
    proof
      assume "length xs < nat (?limit - int k)"
      from split(3) [OF this] have "length ls \<le> k1" by simp
      with i show False by simp
    qed
    with split(2) have "length xs = nat (?limit - int k)" by simp
    with i have "begin_line nxt < int i + 2" unfolding k1_def by linarith
    with either show "(\<exists>s \<in> set rest. begin_line s = int i + 2) \<or>
        (\<forall>s \<in> set rest. begin_line s < int i + 2)"
      by auto
  qed
  from Cons.IH [OF sorted' distinct' valid' empty' comments']
  obtain k' h' where
    run: "range_sections nxt rest (terminated (drop k1 ls)) (int k1) ?h2 =
      Inr (terminated (drop k' ls), h')" and
    len: "length h' = length ?h2" and
    rest_text: "written h' (nxt # rest) @ terminated (drop k' ls) = ?h2 ! raw nxt @ terminated (drop k1 ls)" and
    frame: "\<forall>a. a \<notin> raw ` set (nxt # rest) \<longrightarrow> h' ! a = ?h2 ! a"
    by blast
  from Cons.prems(2) have "raw cur \<notin> raw ` set (nxt # rest)" by (auto simp: image_iff)
  with frame h2_cur have cur': "h' ! raw cur = acc" by simp
  have "written h' (cur # nxt # rest) @ terminated (drop k' ls) =
      acc @ (written h' (nxt # rest) @ terminated (drop k' ls))"
    using cur' by simp
  also have "\<dots> = acc @ buf @ terminated (drop k1 ls)"
    using rest_text h2_nxt by simp
  also have "\<dots> = h ! raw cur @ terminated xs @ terminated (drop k1 ls)"
    using joined by simp
  also have "\<dots> = h ! raw cur @ terminated (drop k ls)"
    using split(1) by (metis terminated_simps(3))
  finally have total: "written h' (cur # nxt # rest) @ terminated (drop k' ls) =
      h ! raw cur @ terminated (drop k ls)" .
  have frame': "\<forall>a. a \<notin> raw ` set (cur # nxt # rest) \<longrightarrow> h' ! a = h ! a"
  proof (intro allI impI)
    fix a assume a: "a \<notin> raw ` set (cur # nxt # rest)"
    then have "a \<notin> raw ` set (nxt # rest)" "a \<noteq> raw cur" "a \<noteq> raw nxt"
      by (auto simp: image_iff)
    with frame h2_other show "h' ! a = h ! a" by simp
  qed
  have untouched: "h' ! raw cur = h ! raw cur"
    if "\<forall>l \<in> set (take (nat (begin_line (hd (nxt # rest)) - 1 - int k)) (drop k ls)). is_comment l"
  proof -
    from that have "\<forall>tok \<in> set xs. is_comment tok" unfolding xs_def by simp
    from fold_comments [OF this, of "[]" "h ! raw cur"] fed have "acc = h ! raw cur" by simp
    with cur' show ?thesis by simp
  qed
  from step run len h2_len total frame' untouched show ?case
    by (intro exI [of _ k'] exI [of _ h']) simp
qed

lemma migrate_sections_unmatched:
  "\<forall>s \<in> set ss. reg (name s) = None \<Longrightarrow> migrate_sections reg ss h = Inr (ss, h)"
  by (induction ss) simp_all

text \<open>
  Claim C1, as amended. Let the input be the lines \<open>ls\<close>, each followed by one line
  feed, none ending with a carriage return, each a token for the scanner. Let every line
  in front of the first section's line be a comment line, and let no comment line be
  directly followed by a line that is neither a comment nor blank, unless that line is
  the first line of a section or comes after the first line of the last section. Then
  the reconstruction ends without error and the buffers of the extracted sections, in
  list order, concatenate to the input; with no migration registered for any of the
  sections, the bytes written for the file are the input.
\<close>

theorem reconstruction_round_trip:
  assumes split: "splitToSections root [] = Inr (ss, h)" and nonempty: "ss \<noteq> []"
    and lines: "\<forall>l \<in> set ls. scannable l \<and> dropCR l = l"
    and header: "\<forall>i < length ls. int i + 1 < begin_line (hd ss) \<longrightarrow> is_comment (ls ! i)"
    and comments: "\<forall>i. Suc i < length ls \<and> is_comment (ls ! i) \<and>
        \<not> is_comment (ls ! Suc i) \<and> \<not> is_blank (ls ! Suc i) \<longrightarrow>
        (\<exists>s \<in> set ss. begin_line s = int i + 2) \<or> (\<forall>s \<in> set ss. begin_line s < int i + 2)"
  shows "\<exists>h'. assignTextToSections (terminated ls) ss h = Inr h' \<and>
    written h' ss = terminated ls \<and>
    (parse (terminated ls) = Some root \<and> (\<forall>s \<in> set ss. reg (name s) = None) \<longrightarrow>
       migrate_file reg parse filename (terminated ls) = Inr (terminated ls))"
proof -
  from splitToSections_alloc [OF split] have
    distinct: "distinct (map raw ss)" and
    valid: "\<forall>s \<in> set ss. raw s < length h" and
    empty: "\<forall>s \<in> set ss. h ! raw s = []" and
    sorted: "sorted (map begin_line ss)"
    by auto
  from nonempty obtain s1 rest where ss: "ss = s1 # rest" by (cases ss) auto
  obtain ss0 h0 where wh: "with_header ss h = (ss0, h0)"
    by (cases "with_header ss h")
  have loop: "\<exists>k' h1. range_sections (hd ss0) (tl ss0) (terminated ls) 0 h0 =
      Inr (terminated (drop k' ls), h1) \<and> length h \<le> length h1 \<and>
      written h1 ss @ terminated (drop k' ls) = terminated ls \<and> last ss0 = last ss"
  proof (cases "begin_line (hd ss) > 0")
    case True
    let ?header = "\<lparr>name = ''header'', begin_line = 0, content = None, raw = length h\<rparr>"
    from True wh have ss0: "ss0 = ?header # ss" and h0: "h0 = h @ [[]]"
      by (auto simp: with_header_def NewBuffer_def)
    have d: "distinct (map raw (?header # ss))"
      using distinct valid by (auto simp: image_iff)
    have v: "\<forall>s \<in> set (?header # ss). raw s < length h0"
      using valid h0 by (auto simp: less_Suc_eq)
    have e: "\<forall>s \<in> set ss. h0 ! raw s = []"
      using valid empty h0 by (simp add: nth_append)
    have c: "\<forall>i. 0 \<le> i \<and> Suc i < length ls \<and> is_comment (ls ! i) \<and>
        \<not> is_comment (ls ! Suc i) \<and> \<not> is_blank (ls ! Suc i) \<longrightarrow>
        (\<exists>s \<in> set ss. begin_line s = int i + 2) \<or> (\<forall>s \<in> set ss. begin_line s < int i + 2)"
      using comments by simp
    from range_sections_round_trip [OF lines sorted d v e c]
    obtain k' h1 where
      run: "range_sections ?header ss (terminated (drop 0 ls)) (int 0) h0 =
        Inr (terminated (drop k' ls), h1)" and
      len: "length h1 = length h0" and
      total: "written h1 (?header # ss) @ terminated (drop k' ls) =
        h0 ! raw ?header @ terminated (drop 0 ls)" and
      untouched: "ss \<noteq> [] \<and>
        (\<forall>l \<in> set (take (nat (begin_line (hd ss) - 1 - int 0)) (drop 0 ls)). is_comment l) \<longrightarrow>
        h1 ! raw ?header = h0 ! raw ?header"
      by blast
    have "\<forall>l \<in> set (take (nat (begin_line (hd ss) - 1 - int 0)) (drop 0 ls)). is_comment l"
    proof
      fix l assume "l \<in> set (take (nat (begin_line (hd ss) - 1 - int 0)) (drop 0 ls))"
      then obtain i where i: "i < nat (begin_line (hd ss) - 1)" "i < length ls" "l = ls ! i"
        by (auto simp: in_set_conv_nth)
      then have "int i + 1 < begin_line (hd ss)" by linarith
      with header i show "is_comment l" by simp
    qed
    with untouched nonempty h0 have "h1 ! raw ?header = []" by simp
    with total h0 have "written h1 ss @ terminated (drop k' ls) = terminated ls" by simp
    with run len ss0 h0 nonempty show ?thesis by auto
  next
    case False
    with wh have ss0: "ss0 = ss" and h0: "h0 = h"
      by (auto simp: with_header_def)
    from False ss have first: "begin_line s1 \<le> 0" by simp
    from sorted ss have s: "sorted (map begin_line rest)" by simp
    from distinct ss have d: "distinct (map raw (s1 # rest))" by simp
    from valid ss have v: "\<forall>s \<in> set (s1 # rest). raw s < length h" by simp
    from empty ss have e: "\<forall>s \<in> set rest. h ! raw s = []" by simp
    have c: "\<forall>i. 0 \<le> i \<and> Suc i < length ls \<and> is_comment (ls ! i) \<and>
        \<not> is_comment (ls ! Suc i) \<and> \<not> is_blank (ls ! Suc i) \<longrightarrow>
        (\<exists>s \<in> set rest. begin_line s = int i + 2) \<or> (\<forall>s \<in> set rest. begin_line s < int i + 2)"
    proof (intro allI impI)
      fix i assume "0 \<le> i \<and> Suc i < length ls \<and> is_comment (ls ! i) \<and>
        \<not> is_comment (ls ! Suc i) \<and> \<not> is_blank (ls ! Suc i)"
      with comments have "(\<exists>s \<in> set ss. begin_line s = int i + 2) \<or>
          (\<forall>s \<in> set ss. begin_line s < int i + 2)"
        by blast
      with first ss show "(\<exists>s \<in> set rest. begin_line s = int i + 2) \<or>
          (\<forall>s \<in> set rest. begin_line s < int i + 2)"
        by auto
    qed
    from range_sections_round_trip [OF lines s d v e c]
    obtain k' h1 where
      run: "range_sections s1 rest (terminated (drop 0 ls)) (int 0) h =
        Inr (terminated (drop k' ls), h1)" and
      len: "length h1 = length h" and
      total: "written h1 (s1 # rest) @ terminated (drop k' ls) =
        h ! raw s1 @ terminated (drop 0 ls)"
      by blast
    from empty ss have "h ! raw s1 = []" by simp
    with total ss have "written h1 ss @ terminated (drop k' ls) = terminated ls" by simp
    with run len ss0 h0 ss show ?thesis by auto
  qed
  then obtain k' h1 where
    run: "range_sections (hd ss0) (tl ss0) (terminated ls) 0 h0 = Inr (terminated (drop k' ls), h1)" and
    len: "length h \<le> length h1" and
    total: "written h1 ss @ terminated (drop k' ls) = terminated ls" and
    last: "last ss0 = last ss"
    by blast
  let ?rem = "drop k' ls"
  let ?h' = "h1[raw (last ss) := h1 ! raw (last ss) @ terminated ?rem]"
  from lines have rem: "\<forall>l \<in> set ?rem. scannable l" "map dropCR ?rem = ?rem"
    by (auto dest: in_set_dropD intro: map_idI)
  from write_remaining_lines [OF rem(1), of "h1 ! raw (last ss)"] rem(2)
  have "write_remaining (terminated ?rem) (h1 ! raw (last ss)) =
      Inr (h1 ! raw (last ss) @ terminated ?rem)"
    by simp
  with nonempty wh run last have assigned: "assignTextToSections (terminated ls) ss h = Inr ?h'"
    by (simp add: assignTextToSections_def)
  from nonempty have "last ss \<in> set ss" by simp
  with valid have "raw (last ss) < length h" by blast
  with len have "raw (last ss) < length h1" by simp
  from written_update_last [OF distinct nonempty this, of "terminated ?rem"] total
  have out: "written ?h' ss = terminated ls" by simp
  have "migrate_file reg parse filename (terminated ls) = Inr (terminated ls)"
    if "parse (terminated ls) = Some root \<and> (\<forall>s \<in> set ss. reg (name s) = None)"
    using that split nonempty assigned out
    by (simp add: migrate_file_def migrate_sections_unmatched)
  with assigned out show ?thesis by blast
qed

text \<open>
  Claim C1 as stated fails on a well-formed document whose last line has no line feed:
  the reconstruction writes one behind it.
\<close>

theorem reconstruction_round_trip_counterexample:
  "splitToSections debug_root [] =
     Inr ([\<lparr>name = ''agent'', begin_line = 1,
            content = Some (Table ''agent'' 1 [(''debug'', KeyValueF ''debug'' 2)]), raw = 0\<rparr>],
          [[]]) \<and>
   assignTextToSections unterminated_conf
     [\<lparr>name = ''agent'', begin_line = 1,
        content = Some (Table ''agent'' 1 [(''debug'', KeyValueF ''debug'' 2)]), raw = 0\<rparr>] [[]] =
     Inr [''[agent]'' @ [LF] @ ''  debug = true'' @ [LF], []] \<and>
   written [''[agent]'' @ [LF] @ ''  debug = true'' @ [LF], []]
     [\<lparr>name = ''agent'', begin_line = 1,
        content = Some (Table ''agent'' 1 [(''debug'', KeyValueF ''debug'' 2)]), raw = 0\<rparr>]
     \<noteq> unterminated_conf"
  by code_simp

text \<open>
  The text is not always kept in order either: a comment line followed by a key of the
  same table stays pending while the key is written, and lands in the buffer of the
  next section.
\<close>

lemma comment_line_moved:
  "migrate_file Map.empty (\<lambda>data. Some moved_root) ''moved.conf'' moved_conf =
     Inr (''[agent]'' @ [LF] @ ''  debug = true'' @ [LF] @ ''  # verbose logging'' @ [LF] @
          ''[[inputs.cpu]]'' @ [LF])"
  by code_simp

theorem reconstruction_round_trip_witness:
  "splitToSections cpu_root [] = Inr (cpu_sections, [[], [], [], []]) \<and>
   terminated cpu_lines = cpu_conf \<and>
   assignTextToSections cpu_conf cpu_sections [[], [], [], []] = Inr cpu_store \<and>
   written cpu_store cpu_sections = cpu_conf \<and>
   migrate_file Map.empty example_parse ''cpu.conf'' cpu_conf = Inr cpu_conf"
proof -
  have split: "splitToSections cpu_root [] = Inr (cpu_sections, [[], [], [], []])"
    by code_simp
  have nonempty: "cpu_sections \<noteq> []"
    by (simp add: cpu_sections_def)
  have conf: "terminated cpu_lines = cpu_conf"
    by (simp add: cpu_lines_def cpu_conf_def terminated_def)
  have "list_all (\<lambda>l. scannable l \<and> dropCR l = l) cpu_lines"
    by code_simp
  then have lines: "\<forall>l \<in> set cpu_lines. scannable l \<and> dropCR l = l"
    by (simp add: list_all_iff)
  have first: "begin_line (hd cpu_sections) = 1"
    by (simp add: cpu_sections_def)
  have header: "\<forall>i < length cpu_lines. int i + 1 < begin_line (hd cpu_sections) \<longrightarrow>
      is_comment (cpu_lines ! i)"
    unfolding first by simp
  have kinds: "map is_comment cpu_lines = [False, False, False, False, False, True, False]"
    by code_simp
  have len: "length cpu_lines = 7"
    by (simp add: cpu_lines_def)
  have last_begin: "\<exists>s \<in> set cpu_sections. begin_line s = 7"
    by (simp add: cpu_sections_def)
  have comments: "\<forall>i. Suc i < length cpu_lines \<and> is_comment (cpu_lines ! i) \<and>
        \<not> is_comment (cpu_lines ! Suc i) \<and> \<not> is_blank (cpu_lines ! Suc i) \<longrightarrow>
        (\<exists>s \<in> set cpu_sections. begin_line s = int i + 2) \<or>
        (\<forall>s \<in> set cpu_sections. begin_line s < int i + 2)"
  proof (intro allI impI)
    fix i assume i: "Suc i < length cpu_lines \<and> is_comment (cpu_lines ! i) \<and>
        \<not> is_comment (cpu_lines ! Suc i) \<and> \<not> is_blank (cpu_lines ! Suc i)"
    with len have small: "i < 6" by simp
    with len have "is_comment (cpu_lines ! i) = map is_comment cpu_lines ! i" by simp
    with i kinds have "[False, False, False, False, False, True, False] ! i" by simp
    with small have "i = 5"
      by (simp add: nth_Cons' split: if_splits)
    with last_begin show "(\<exists>s \<in> set cpu_sections. begin_line s = int i + 2) \<or>
        (\<forall>s \<in> set cpu_sections. begin_line s < int i + 2)"
      by simp
  qed
  have parse: "example_parse (terminated cpu_lines) = Some cpu_root"
    unfolding conf by code_simp
  have unmatched: "\<forall>s \<in> set cpu_sections. Map.empty (name s) = (None :: PluginMigrationFunc option)"
    by simp
  from reconstruction_round_trip [OF split nonempty lines header comments,
      of example_parse Map.empty "''cpu.conf''"] parse unmatched conf
  obtain h' where
    assigned: "assignTextToSections cpu_conf cpu_sections [[], [], [], []] = Inr h'" and
    out: "written h' cpu_sections = cpu_conf" and
    file_out: "migrate_file Map.empty example_parse ''cpu.conf'' cpu_conf = Inr cpu_conf"
    by auto
  have "assignTextToSections cpu_conf cpu_sections [[], [], [], []] = Inr cpu_store"
    by code_simp
  with assigned have "h' = cpu_store" by simp
  with split conf assigned out file_out show ?thesis by simp
qed

end
